theory Spec2Isabelle
  imports Main
begin

section \<open>Values exchanged with the analyzer\<close>

text \<open>
  The analyzer of \<^verbatim>\<open>src/python/deep_analyzer.py\<close> works on what \<^verbatim>\<open>json.loads\<close>
  returns: \<^verbatim>\<open>None\<close>, booleans, integers, strings, lists and dictionaries with string
  keys. A dictionary is kept as its items in insertion order and looked up with \<open>map_of\<close>
  (the first binding of a key is the dictionary's value for it). JSON numbers with a
  fraction or an exponent (Python floats) are left out of the datatype.

  A Python \<^verbatim>\<open>str\<close> is a \<open>string\<close> whose characters stand for the code points 0 to 255,
  one \<open>char\<close> for one code point.
\<close>

datatype json =
    JNull
  | JBool bool
  | JInt int
  | JStr string
  | JList "json list"
  | JObj "(string \<times> json) list"

text \<open>The exceptions the analysis can raise; it catches none of them itself.\<close>

datatype py_error = TypeError | KeyError | AttributeError

definition py_bind :: "py_error + 'a \<Rightarrow> ('a \<Rightarrow> py_error + 'b) \<Rightarrow> py_error + 'b" where
  "py_bind m f = (case m of Inl e \<Rightarrow> Inl e | Inr x \<Rightarrow> f x)"

subsection \<open>Characters\<close>

definition code_point :: "char \<Rightarrow> nat" where
  "code_point c = of_char c"

text \<open>\<^verbatim>\<open>str.isspace\<close> and the class \<^verbatim>\<open>\s\<close> of \<^verbatim>\<open>re\<close> on code points below 256.\<close>

definition is_space :: "char \<Rightarrow> bool" where
  "is_space c = (let n = code_point c in
     (9 \<le> n \<and> n \<le> 13) \<or> (28 \<le> n \<and> n \<le> 32) \<or> n = 133 \<or> n = 160)"

text \<open>\<^verbatim>\<open>str.isalnum\<close> on code points below 256.\<close>

definition is_alnum :: "char \<Rightarrow> bool" where
  "is_alnum c = (let n = code_point c in
     (48 \<le> n \<and> n \<le> 57) \<or> (65 \<le> n \<and> n \<le> 90) \<or> (97 \<le> n \<and> n \<le> 122) \<or>
     n = 170 \<or> n = 178 \<or> n = 179 \<or> n = 181 \<or> n = 185 \<or> n = 186 \<or>
     (188 \<le> n \<and> n \<le> 190) \<or> (192 \<le> n \<and> n \<le> 214) \<or>
     (216 \<le> n \<and> n \<le> 246) \<or> (248 \<le> n \<and> n \<le> 255))"

text \<open>\<^verbatim>\<open>str.lower\<close> on one code point below 256.\<close>

definition lower_char :: "char \<Rightarrow> char" where
  "lower_char c = (let n = code_point c in
     if (65 \<le> n \<and> n \<le> 90) \<or> (192 \<le> n \<and> n \<le> 222 \<and> n \<noteq> 215)
     then char_of (n + 32) else c)"

text \<open>
  The code points below 256 that have another case, as \<^verbatim>\<open>_sre.unicode_iscased\<close> gives
  them.
\<close>

definition is_cased :: "char \<Rightarrow> bool" where
  "is_cased c = (let n = code_point c in
     (65 \<le> n \<and> n \<le> 90) \<or> (97 \<le> n \<and> n \<le> 122) \<or> n = 181 \<or>
     (192 \<le> n \<and> n \<le> 214) \<or> (216 \<le> n \<and> n \<le> 246) \<or> (248 \<le> n \<and> n \<le> 255))"

definition py_strip :: "string \<Rightarrow> string" where
  "py_strip s = rev (dropWhile is_space (rev (dropWhile is_space s)))"

text \<open>\<^verbatim>\<open>s[a:b]\<close> for \<open>0 \<le> a\<close> and \<open>0 \<le> b\<close>.\<close>

definition py_slice :: "'a list \<Rightarrow> int \<Rightarrow> int \<Rightarrow> 'a list" where
  "py_slice s a b = take (nat b - nat a) (drop (nat a) s)"

text \<open>\<^verbatim>\<open>k in s\<close> for two strings: \<open>k\<close> occurs in \<open>s\<close> as a contiguous run.\<close>

fun contains_str :: "string \<Rightarrow> string \<Rightarrow> bool" where
  "contains_str k [] = (k = [])"
| "contains_str k (x # xs) = (take (length k) (x # xs) = k \<or> contains_str k xs)"

subsection \<open>The character tables of the matcher\<close>

text \<open>
  Matching a \<^verbatim>\<open>str\<close> pattern, \<^verbatim>\<open>re\<close> reads the Unicode database through a few functions:
  the lower case of a character (\<^verbatim>\<open>_sre.unicode_tolower\<close>), whether it has another case
  (\<^verbatim>\<open>_sre.unicode_iscased\<close>), \<^verbatim>\<open>str.isspace\<close> and \<^verbatim>\<open>str.isalnum\<close>; and under
  \<^verbatim>\<open>re.IGNORECASE\<close> it takes some lower-case characters for equal to others, those that its
  table \<^verbatim>\<open>_EXTRA_CASES\<close> lists. The matcher and the content detector below take these
  functions as a parameter, together with the type of the characters of the text and the
  character that each character of a pattern denotes, so that what is proved of them
  holds of every text, whatever the tables are.
\<close>

record 'c tables =
  chr :: "char \<Rightarrow> 'c"
  tolower :: "'c \<Rightarrow> 'c"
  iscased :: "'c \<Rightarrow> bool"
  isspace :: "'c \<Rightarrow> bool"
  isalnum :: "'c \<Rightarrow> bool"
  equivalents :: "'c \<Rightarrow> 'c list"

text \<open>
  The tables on the code points below 256, the characters of the strings of \<^typ>\<open>json\<close>.
  \<^verbatim>\<open>_EXTRA_CASES\<close> lists no two characters of this range together.
\<close>

definition latin1 :: "char tables" where
  "latin1 = \<lparr>chr = (\<lambda>c. c), tolower = lower_char, iscased = is_cased, isspace = is_space,
     isalnum = is_alnum, equivalents = (\<lambda>c. [])\<rparr>"

text \<open>\<^verbatim>\<open>s.strip()\<close>\<close>

definition strip :: "'c tables \<Rightarrow> 'c list \<Rightarrow> 'c list" where
  "strip db s = rev (dropWhile (isspace db) (rev (dropWhile (isspace db) s)))"

section \<open>The pattern registry\<close>

text \<open>
  The five patterns of \<^verbatim>\<open>self.patterns\<close> are regular expressions for Python's \<^verbatim>\<open>re\<close>
  module, always used with \<^verbatim>\<open>re.IGNORECASE\<close>. They are written here as syntax trees over
  the constructs they use: literal text, a character class, a greedy star or plus of a
  class, an optional part, the word boundary \<^verbatim>\<open>\b\<close>, sequence and alternation. Groups
  only bracket (no pattern refers back to one).
\<close>

datatype cclass = Dot | Word | Space | OneOf string | NoneOf string

datatype rx = Str string | Cls cclass | Star cclass | Plus cclass | Opt rx | WordB
  | Seq rx rx | Alt rx rx

fun seqs :: "rx list \<Rightarrow> rx" where
  "seqs [] = Str []"
| "seqs [r] = r"
| "seqs (r # rs) = Seq r (seqs rs)"

fun alts :: "rx list \<Rightarrow> rx" where
  "alts [] = Cls (OneOf [])"
| "alts [r] = r"
| "alts (r # rs) = Alt r (alts rs)"

text \<open>
  \<^verbatim>\<open>(\b(select|update|delete|insert|drop|alter)\b.*\b(from|table|where|set)\b)|(\'\s*or\s*\'\s*=\s*\')|(\'\s*;\s*--\s*)\<close>
\<close>

definition sql_injection_rx :: rx where
  "sql_injection_rx = alts [
     seqs [WordB,
           alts (map Str [''select'', ''update'', ''delete'', ''insert'', ''drop'', ''alter'']),
           WordB, Star Dot, WordB,
           alts (map Str [''from'', ''table'', ''where'', ''set'']), WordB],
     seqs [Str [CHR 0x27], Star Space, Str ''or'', Star Space, Str [CHR 0x27], Star Space,
           Str ''='', Star Space, Str [CHR 0x27]],
     seqs [Str [CHR 0x27], Star Space, Str '';'', Star Space, Str ''--'', Star Space]]"

text \<open>\<^verbatim>\<open>(<script[^>]*>|javascript:|\bon\w+\s*=|\beval\s*\()\<close>\<close>

definition xss_vulnerability_rx :: rx where
  "xss_vulnerability_rx = alts [
     seqs [Str ''<script'', Star (NoneOf ''>''), Str ''>''],
     Str ''javascript:'',
     seqs [WordB, Str ''on'', Plus Word, Star Space, Str ''=''],
     seqs [WordB, Str ''eval'', Star Space, Str ''('']]"

text \<open>\<^verbatim>\<open>(password|passwd|pwd|secret|api[_\-]?key|access[_\-]?token|auth[_\-]?token)\<close>\<close>

definition sensitive_data_rx :: rx where
  "sensitive_data_rx = alts [
     Str ''password'', Str ''passwd'', Str ''pwd'', Str ''secret'',
     seqs [Str ''api'', Opt (Cls (OneOf ''_-'')), Str ''key''],
     seqs [Str ''access'', Opt (Cls (OneOf ''_-'')), Str ''token''],
     seqs [Str ''auth'', Opt (Cls (OneOf ''_-'')), Str ''token'']]"

text \<open>\<^verbatim>\<open>(\.\./|\.\.\\|/etc/passwd|/etc/shadow|c:\\windows\\system32)\<close>\<close>

definition path_traversal_rx :: rx where
  "path_traversal_rx = alts [
     Str ''../'', Str (''..'' @ [CHR 0x5C]), Str ''/etc/passwd'', Str ''/etc/shadow'',
     Str (''c:'' @ [CHR 0x5C] @ ''windows'' @ [CHR 0x5C] @ ''system32'')]"

text \<open>\<^verbatim>\<open>(url=|redirect=|return=|next=|redir=|r=|destination=)\<close>\<close>

definition open_redirect_rx :: rx where
  "open_redirect_rx = alts (map Str
     [''url='', ''redirect='', ''return='', ''next='', ''redir='', ''r='', ''destination=''])"

text \<open>\<^verbatim>\<open>self.patterns\<close> and \<^verbatim>\<open>self.severity_mapping\<close>, in insertion order.\<close>

definition patterns :: "(string \<times> rx) list" where
  "patterns = [
     (''sql_injection'', sql_injection_rx),
     (''xss_vulnerability'', xss_vulnerability_rx),
     (''sensitive_data'', sensitive_data_rx),
     (''path_traversal'', path_traversal_rx),
     (''open_redirect'', open_redirect_rx)]"

definition severity_mapping :: "(string \<times> string) list" where
  "severity_mapping = [
     (''sql_injection'', ''critical''),
     (''xss_vulnerability'', ''high''),
     (''sensitive_data'', ''high''),
     (''path_traversal'', ''critical''),
     (''open_redirect'', ''medium'')]"

section \<open>Matching as \<^verbatim>\<open>re.finditer\<close> does\<close>

text \<open>
  A cursor is a place in the text: the character before it (none at the start) and the
  text from it on. \<open>rx_ends db r cur\<close> lists the places where a match of \<open>r\<close> begun at
  \<open>cur\<close> can end, in the order in which the backtracking matcher of \<^verbatim>\<open>re\<close> tries them:
  the alternatives of \<^verbatim>\<open>|\<close> from left to right, a greedy repetition from its longest run
  down, an optional part first with and then without it. The match \<^verbatim>\<open>re\<close> reports is the
  first of the list.
\<close>

type_synonym 'c cursor = "'c option \<times> 'c list"

text \<open>
  A literal character of a pattern under \<^verbatim>\<open>re.IGNORECASE\<close>. One that has no other case is
  compared as it is. For one that has, the compiler takes its lower case \<open>lo\<close> and the
  matcher accepts a character of the text whose lower case is \<open>lo\<close> or one of the
  equivalents of \<open>lo\<close>.
\<close>

definition lit_match :: "'c tables \<Rightarrow> char \<Rightarrow> 'c \<Rightarrow> bool" where
  "lit_match db c x =
     (if iscased db (chr db c)
      then tolower db x = tolower db (chr db c) \<or>
           tolower db x \<in> set (equivalents db (tolower db (chr db c)))
      else x = chr db c)"

text \<open>The class \<^verbatim>\<open>\w\<close>: alphanumeric or underscore.\<close>

definition word_char :: "'c tables \<Rightarrow> 'c \<Rightarrow> bool" where
  "word_char db x = (isalnum db x \<or> x = chr db CHR ''_'')"

text \<open>
  The classes \<^verbatim>\<open>.\<close>, \<^verbatim>\<open>\w\<close>, \<^verbatim>\<open>\s\<close> and the bracketed sets. The sets of the registry,
  \<^verbatim>\<open>[^>]\<close> and \<^verbatim>\<open>[_\-]\<close>, hold no character that has another case, and for such a set the
  character of the text is looked up as it is.
\<close>

fun in_class :: "'c tables \<Rightarrow> cclass \<Rightarrow> 'c \<Rightarrow> bool" where
  "in_class db Dot x = (x \<noteq> chr db (CHR 0x0A))"
| "in_class db Word x = word_char db x"
| "in_class db Space x = isspace db x"
| "in_class db (OneOf cs) x = (x \<in> set (map (chr db) cs))"
| "in_class db (NoneOf cs) x = (x \<notin> set (map (chr db) cs))"

fun at_boundary :: "'c tables \<Rightarrow> 'c cursor \<Rightarrow> bool" where
  "at_boundary db (p, rest) =
     ((case p of None \<Rightarrow> False | Some c \<Rightarrow> word_char db c) \<noteq>
      (case rest of [] \<Rightarrow> False | c # _ \<Rightarrow> word_char db c))"

fun lit_ends :: "'c tables \<Rightarrow> string \<Rightarrow> 'c cursor \<Rightarrow> 'c cursor list" where
  "lit_ends db [] cur = [cur]"
| "lit_ends db (c # cs) (p, []) = []"
| "lit_ends db (c # cs) (p, x # xs) =
     (if lit_match db c x then lit_ends db cs (Some x, xs) else [])"

fun cls_ends :: "'c tables \<Rightarrow> cclass \<Rightarrow> 'c cursor \<Rightarrow> 'c cursor list" where
  "cls_ends db k (p, []) = []"
| "cls_ends db k (p, x # xs) = (if in_class db k x then [(Some x, xs)] else [])"

fun star_ends :: "'c tables \<Rightarrow> cclass \<Rightarrow> 'c cursor \<Rightarrow> 'c cursor list" where
  "star_ends db k (p, []) = [(p, [])]"
| "star_ends db k (p, x # xs) =
     (if in_class db k x then star_ends db k (Some x, xs) @ [(p, x # xs)] else [(p, x # xs)])"

fun rx_ends :: "'c tables \<Rightarrow> rx \<Rightarrow> 'c cursor \<Rightarrow> 'c cursor list" where
  "rx_ends db (Str w) cur = lit_ends db w cur"
| "rx_ends db (Cls k) cur = cls_ends db k cur"
| "rx_ends db (Star k) cur = star_ends db k cur"
| "rx_ends db (Plus k) cur = concat (map (star_ends db k) (cls_ends db k cur))"
| "rx_ends db (Opt r) cur = rx_ends db r cur @ [cur]"
| "rx_ends db WordB cur = (if at_boundary db cur then [cur] else [])"
| "rx_ends db (Seq a b) cur = concat (map (rx_ends db b) (rx_ends db a cur))"
| "rx_ends db (Alt a b) cur = rx_ends db a cur @ rx_ends db b cur"

text \<open>
  The first end the scanner accepts, with the number of characters the match consumed
  out of the \<open>n\<close> that were left. After an empty match the scanner retries at the same
  place and refuses an empty match there (\<open>adv\<close>).
\<close>

fun first_end :: "bool \<Rightarrow> nat \<Rightarrow> 'c cursor list \<Rightarrow> (nat \<times> 'c cursor) option" where
  "first_end adv n [] = None"
| "first_end adv n ((p, rest) # cs) =
     (if adv \<and> length rest = n then first_end adv n cs
      else Some (n - length rest, (p, rest)))"

lemma lit_ends_length:
  "(p', r') \<in> set (lit_ends db w (p, r)) \<Longrightarrow> length r' \<le> length r"
  by (induction db w "(p, r)" arbitrary: p r rule: lit_ends.induct) (auto split: if_splits)

lemma cls_ends_length:
  "(p', r') \<in> set (cls_ends db k (p, r)) \<Longrightarrow> length r' \<le> length r"
  by (cases r) (auto split: if_splits)

lemma star_ends_length:
  "(p', r') \<in> set (star_ends db k (p, r)) \<Longrightarrow> length r' \<le> length r"
  by (induction db k "(p, r)" arbitrary: p r rule: star_ends.induct)
     (fastforce split: if_splits)+

lemma rx_ends_length:
  "(p', r') \<in> set (rx_ends db x (p, r)) \<Longrightarrow> length r' \<le> length r"
proof (induction x arbitrary: p r p' r')
  case (Plus k)
  then show ?case by (fastforce dest: star_ends_length cls_ends_length)
next
  case (Seq a b)
  then show ?case by fastforce
qed (auto dest: lit_ends_length star_ends_length cls_ends_length split: if_splits)

lemma first_end_Some:
  "first_end adv n cs = Some (k, (p', r')) \<Longrightarrow>
     (p', r') \<in> set cs \<and> k = n - length r' \<and> (adv \<longrightarrow> length r' \<noteq> n)"
  by (induction adv n cs rule: first_end.induct) (auto split: if_splits)

lemma first_end_rx_ends:
  assumes "first_end adv (length rest) (rx_ends db r (p, rest)) = Some (k, (p', r'))"
  shows "length r' \<le> length rest" and "k = length rest - length r'"
    and "adv \<Longrightarrow> length r' < length rest"
proof -
  from first_end_Some [OF assms]
  have m: "(p', r') \<in> set (rx_ends db r (p, rest))" and k: "k = length rest - length r'"
    and a: "adv \<longrightarrow> length r' \<noteq> length rest"
    by simp_all
  from rx_ends_length [OF m] show "length r' \<le> length rest" .
  from k show "k = length rest - length r'" .
  show "length r' < length rest" if adv
    using that a rx_ends_length [OF m] by simp
qed

text \<open>
  The scan of \<^verbatim>\<open>finditer\<close>: try a match at the cursor; a match found is reported as
  (start, end) and the scan goes on from its end; with no match the scan moves one
  character on, until the end of the text (where a last attempt is made).
\<close>

function finditer_from ::
  "'c tables \<Rightarrow> rx \<Rightarrow> bool \<Rightarrow> nat \<Rightarrow> 'c cursor \<Rightarrow> (nat \<times> nat) list" where
  "finditer_from db r adv pos (p, rest) =
     (case first_end adv (length rest) (rx_ends db r (p, rest)) of
        Some (k, cur') \<Rightarrow> (pos, pos + k) # finditer_from db r (k = 0) (pos + k) cur'
      | None \<Rightarrow>
          (case rest of
             [] \<Rightarrow> []
           | x # xs \<Rightarrow> finditer_from db r False (pos + 1) (Some x, xs)))"
  by pat_completeness auto
termination
proof (relation
    "measure (\<lambda>(db, r, adv, pos, (p, rest)). 2 * length rest + (if adv then 0 else 1))")
  show "wf (measure (\<lambda>(db :: 'c tables, r :: rx, adv, pos :: nat, (p :: 'c option, rest)).
      2 * length rest + (if adv then 0 else 1)))"
    by simp
next
  fix db :: "'c tables" and r :: rx and adv :: bool and pos :: nat and p :: "'c option"
    and rest :: "'c list" and x2 :: "nat \<times> 'c cursor" and k :: nat and cur' :: "'c cursor"
  assume f: "first_end adv (length rest) (rx_ends db r (p, rest)) = Some x2"
    and x2: "(k, cur') = x2"
  obtain p' r' where c: "cur' = (p', r')" by (cases cur')
  from f x2 c have f': "first_end adv (length rest) (rx_ends db r (p, rest)) = Some (k, (p', r'))"
    by simp
  from first_end_rx_ends [OF f']
  show "((db, r, k = 0, pos + k, cur'), (db, r, adv, pos, (p, rest)))
      \<in> measure (\<lambda>(db, r, adv, pos, (p, rest)). 2 * length rest + (if adv then 0 else 1))"
    using c by (cases adv) auto
next
  fix db :: "'c tables" and r :: rx and adv :: bool and pos :: nat and p :: "'c option"
    and rest :: "'c list" and x :: 'c and xs :: "'c list"
  assume "rest = x # xs"
  then show "((db, r, False, pos + 1, (Some x, xs)), (db, r, adv, pos, (p, rest)))
      \<in> measure (\<lambda>(db, r, adv, pos, (p, rest)). 2 * length rest + (if adv then 0 else 1))"
    by simp
qed

definition finditer :: "'c tables \<Rightarrow> rx \<Rightarrow> 'c list \<Rightarrow> (nat \<times> nat) list" where
  "finditer db r s = finditer_from db r False 0 (None, s)"

section \<open>Python's operations on the values\<close>

text \<open>\<^verbatim>\<open>hash(x)\<close> raises for a list and for a dictionary; a set or a dictionary lookup needs it.\<close>

fun hashable :: "json \<Rightarrow> bool" where
  "hashable (JList xs) = False"
| "hashable (JObj kvs) = False"
| "hashable v = True"

text \<open>Members of a set are compared with \<^verbatim>\<open>==\<close>, under which \<^verbatim>\<open>True == 1\<close> and \<^verbatim>\<open>False == 0\<close>.\<close>

fun py_key :: "json \<Rightarrow> json" where
  "py_key (JBool b) = JInt (if b then 1 else 0)"
| "py_key v = v"

fun dict_keys :: "(string \<times> json) list \<Rightarrow> string list" where
  "dict_keys [] = []"
| "dict_keys ((k, v) # kvs) = k # filter (\<lambda>k'. k' \<noteq> k) (dict_keys kvs)"

text \<open>\<^verbatim>\<open>x.get(k, d)\<close>: only a dictionary has the method.\<close>

fun py_get :: "json \<Rightarrow> string \<Rightarrow> json \<Rightarrow> py_error + json" where
  "py_get (JObj kvs) k d = Inr (case map_of kvs k of None \<Rightarrow> d | Some v \<Rightarrow> v)"
| "py_get v k d = Inl AttributeError"

text \<open>\<^verbatim>\<open>x[k]\<close> for a string \<open>k\<close>.\<close>

fun py_subscript :: "json \<Rightarrow> string \<Rightarrow> py_error + json" where
  "py_subscript (JObj kvs) k = (case map_of kvs k of None \<Rightarrow> Inl KeyError | Some v \<Rightarrow> Inr v)"
| "py_subscript v k = Inl TypeError"

text \<open>
  \<^verbatim>\<open>k in x\<close> for a string \<open>k\<close>: a key of a dictionary, an element of a list, a substring
  of a string; the other values are not containers.
\<close>

fun py_contains :: "string \<Rightarrow> json \<Rightarrow> py_error + bool" where
  "py_contains k (JObj kvs) = Inr (k \<in> fst ` set kvs)"
| "py_contains k (JList xs) = Inr (JStr k \<in> set xs)"
| "py_contains k (JStr s) = Inr (contains_str k s)"
| "py_contains k v = Inl TypeError"

text \<open>
  Iteration (\<^verbatim>\<open>for x in v\<close>, \<^verbatim>\<open>list.extend(v)\<close>): the elements of a list, the characters of
  a string, the keys of a dictionary.
\<close>

fun py_iter :: "json \<Rightarrow> py_error + json list" where
  "py_iter (JList xs) = Inr xs"
| "py_iter (JStr s) = Inr (map (\<lambda>c. JStr [c]) s)"
| "py_iter (JObj kvs) = Inr (map JStr (dict_keys kvs))"
| "py_iter v = Inl TypeError"

fun py_lower :: "json \<Rightarrow> py_error + string" where
  "py_lower (JStr s) = Inr (map lower_char s)"
| "py_lower v = Inl AttributeError"

fun py_len :: "json \<Rightarrow> py_error + int" where
  "py_len (JStr s) = Inr (int (length s))"
| "py_len (JList xs) = Inr (int (length xs))"
| "py_len (JObj kvs) = Inr (int (length (dict_keys kvs)))"
| "py_len v = Inl TypeError"

section \<open>The content detector\<close>

text \<open>
  The dictionary that \<^verbatim>\<open>analyze_content\<close> appends for a match, with its six keys as the
  fields of a record; the context is text, of the characters of the content.
\<close>

record ('c, 'u) finding =
  finding_id :: string
  finding_severity :: string
  finding_details :: string
  finding_context :: "'c list"
  finding_url :: 'u
  finding_position :: int

text \<open>\<^verbatim>\<open>issue_type.replace("_", " ")\<close>\<close>

definition replace_underscores :: "string \<Rightarrow> string" where
  "replace_underscores s = map (\<lambda>c. if c = CHR ''_'' then CHR '' '' else c) s"

text \<open>The dictionary appended for one match, \<open>(start, end)\<close> being its span.\<close>

definition content_issue ::
  "'c tables \<Rightarrow> string \<Rightarrow> 'u \<Rightarrow> 'c list \<Rightarrow> nat \<times> nat \<Rightarrow> ('c, 'u) finding" where
  "content_issue db issue_type url content span =
     \<lparr>finding_id = ''deep_'' @ issue_type,
      finding_severity = (case map_of severity_mapping issue_type of
                            None \<Rightarrow> ''medium'' | Some s \<Rightarrow> s),
      finding_details = ''Potential '' @ replace_underscores issue_type @ '' detected'',
      finding_context = strip db (py_slice content
                              (max 0 (int (fst span) - 30))
                              (min (int (length content)) (int (snd span) + 30))),
      finding_url = url,
      finding_position = int (fst span)\<rparr>"

text \<open>
  The two nested loops of \<^verbatim>\<open>analyze_content\<close>, each appending to \<^verbatim>\<open>issues\<close>, and the
  function on a text of any characters.
\<close>

fun match_loop ::
  "'c tables \<Rightarrow> string \<Rightarrow> 'u \<Rightarrow> 'c list \<Rightarrow> (nat \<times> nat) list \<Rightarrow>
     ('c, 'u) finding list \<Rightarrow> ('c, 'u) finding list" where
  "match_loop db issue_type url content [] issues = issues"
| "match_loop db issue_type url content (m # ms) issues =
     match_loop db issue_type url content ms
       (issues @ [content_issue db issue_type url content m])"

fun pattern_loop ::
  "'c tables \<Rightarrow> 'u \<Rightarrow> 'c list \<Rightarrow> (string \<times> rx) list \<Rightarrow>
     ('c, 'u) finding list \<Rightarrow> ('c, 'u) finding list" where
  "pattern_loop db url content [] issues = issues"
| "pattern_loop db url content ((issue_type, pattern) # ps) issues =
     pattern_loop db url content ps
       (match_loop db issue_type url content (finditer db pattern content) issues)"

definition analyze_text :: "'c tables \<Rightarrow> 'u \<Rightarrow> 'c list \<Rightarrow> ('c, 'u) finding list" where
  "analyze_text db url content = pattern_loop db url content patterns []"

text \<open>
  \<^verbatim>\<open>analyze_content\<close> on the values of \<^typ>\<open>json\<close>, whose strings hold the code points
  below 256: the findings of the text, each as the dictionary of its fields in the order
  of the source. \<^verbatim>\<open>re.finditer\<close> raises \<^verbatim>\<open>TypeError\<close> for a content that is not a
  string.
\<close>

definition issue_json :: "(char, json) finding \<Rightarrow> json" where
  "issue_json f =
     JObj [(''id'', JStr (finding_id f)),
           (''severity'', JStr (finding_severity f)),
           (''details'', JStr (finding_details f)),
           (''context'', JStr (finding_context f)),
           (''url'', finding_url f),
           (''position'', JInt (finding_position f))]"

fun analyze_content :: "json \<Rightarrow> json \<Rightarrow> py_error + json list" where
  "analyze_content url (JStr content) = Inr (map issue_json (analyze_text latin1 url content))"
| "analyze_content url v = Inl TypeError"

section \<open>The header detector\<close>

definition cookie_issue :: "json \<Rightarrow> json \<Rightarrow> json" where
  "cookie_issue url v =
     JObj [
       (''id'', JStr ''deep_insecure_cookie''),
       (''severity'', JStr ''high''),
       (''details'', JStr ''Cookies set without Secure or HttpOnly flags''),
       (''context'', v),
       (''url'', url)]"

definition server_issue :: "json \<Rightarrow> json \<Rightarrow> json" where
  "server_issue url v =
     JObj [
       (''id'', JStr ''deep_server_disclosure''),
       (''severity'', JStr ''medium''),
       (''details'', JStr ''Server header reveals software information''),
       (''context'', v),
       (''url'', url)]"

text \<open>\<^verbatim>\<open>word not in headers['set-cookie'].lower()\<close>\<close>

definition cookie_lacks :: "string \<Rightarrow> json \<Rightarrow> py_error + bool" where
  "cookie_lacks word headers =
     py_bind (py_subscript headers ''set-cookie'') (\<lambda>v.
     py_bind (py_lower v) (\<lambda>l. Inr (\<not> contains_str word l)))"

text \<open>The condition of the first \<^verbatim>\<open>if\<close>, with the short circuits of \<^verbatim>\<open>and\<close> and \<^verbatim>\<open>or\<close>.\<close>

definition cookie_test :: "json \<Rightarrow> py_error + bool" where
  "cookie_test headers =
     py_bind (py_contains ''set-cookie'' headers) (\<lambda>present.
       if \<not> present then Inr False
       else py_bind (cookie_lacks ''secure'' headers) (\<lambda>no_secure.
         if no_secure then Inr True else cookie_lacks ''httponly'' headers))"

text \<open>The condition of the second \<^verbatim>\<open>if\<close>.\<close>

definition server_test :: "json \<Rightarrow> py_error + bool" where
  "server_test headers =
     py_bind (py_contains ''server'' headers) (\<lambda>present.
       if \<not> present then Inr False
       else py_bind (py_subscript headers ''server'') (\<lambda>v.
            py_bind (py_len v) (\<lambda>n. Inr (n > 0))))"

definition analyze_headers :: "json \<Rightarrow> json \<Rightarrow> py_error + json list" where
  "analyze_headers url headers =
     py_bind (cookie_test headers) (\<lambda>c.
     py_bind (if c then py_bind (py_subscript headers ''set-cookie'') (\<lambda>v.
                          Inr [cookie_issue url v])
              else Inr []) (\<lambda>issues.
     py_bind (server_test headers) (\<lambda>s.
       if s then py_bind (py_subscript headers ''server'') (\<lambda>v.
                   Inr (issues @ [server_issue url v]))
       else Inr issues)))"

section \<open>The recommendation generator\<close>

text \<open>\<^verbatim>\<open>set(issue['id'] for issue in issues)\<close>\<close>

fun issue_ids :: "json list \<Rightarrow> json set \<Rightarrow> py_error + json set" where
  "issue_ids [] acc = Inr acc"
| "issue_ids (issue # issues) acc =
     py_bind (py_subscript issue ''id'') (\<lambda>v.
       if hashable v then issue_ids issues (insert (py_key v) acc) else Inl TypeError)"

definition rec_sql_injection :: string where
  "rec_sql_injection = ''Implement parameterized queries or prepared statements for all database operations. Never concatenate user input directly into SQL queries.''"

definition rec_xss_vulnerability :: string where
  "rec_xss_vulnerability = ''Implement context-specific output encoding and use Content Security Policy (CSP) to mitigate XSS attacks. Consider using modern frameworks that automatically escape output.''"

definition rec_sensitive_data :: string where
  "rec_sensitive_data = ''Remove sensitive data from client-side code. Store API keys and credentials securely using environment variables or a secure vault solution.''"

definition rec_path_traversal :: string where
  "rec_path_traversal = ''Validate and sanitize all file paths. Use whitelisting approaches and avoid passing user input directly to filesystem operations.''"

definition rec_open_redirect :: string where
  "rec_open_redirect = ''Implement a whitelist of allowed redirect destinations or use relative path redirects. Always validate redirect URLs against a list of allowed domains.''"

definition rec_insecure_cookie :: string where
  "rec_insecure_cookie = ''Set the Secure, HttpOnly, and SameSite flags on all cookies containing sensitive information. Consider implementing token-based authentication instead of cookie-based authentication.''"

definition rec_server_disclosure :: string where
  "rec_server_disclosure = ''Configure your web server to remove or obfuscate the Server header to prevent information disclosure about your technology stack.''"

text \<open>One \<^verbatim>\<open>if ... in issue_types: recommendations.append(...)\<close>.\<close>

definition append_if :: "json set \<Rightarrow> string \<Rightarrow> string \<Rightarrow> string list \<Rightarrow> string list" where
  "append_if issue_types ident advice recs =
     (if JStr ident \<in> issue_types then recs @ [advice] else recs)"

definition generate_recommendations :: "json list \<Rightarrow> py_error + string list" where
  "generate_recommendations issues =
     py_bind (issue_ids issues {}) (\<lambda>issue_types.
       let recs = [];
           recs = append_if issue_types ''deep_sql_injection'' rec_sql_injection recs;
           recs = append_if issue_types ''deep_xss_vulnerability'' rec_xss_vulnerability recs;
           recs = append_if issue_types ''deep_sensitive_data'' rec_sensitive_data recs;
           recs = append_if issue_types ''deep_path_traversal'' rec_path_traversal recs;
           recs = append_if issue_types ''deep_open_redirect'' rec_open_redirect recs;
           recs = append_if issue_types ''deep_insecure_cookie'' rec_insecure_cookie recs;
           recs = append_if issue_types ''deep_server_disclosure'' rec_server_disclosure recs
       in Inr recs)"

section \<open>The aggregator\<close>

record report =
  enhanced_issues :: "json list"
  recommendations :: "string list"
  risk_score :: int
  risk_level :: string
  severity_counts :: "(string \<times> int) list"
  urls_analyzed :: int

text \<open>The body of the loop over the records: the state is \<^verbatim>\<open>all_issues\<close> and \<^verbatim>\<open>all_urls\<close>.\<close>

definition process_result :: "json list \<times> json set \<Rightarrow> json \<Rightarrow> py_error + json list \<times> json set" where
  "process_result st result =
     py_bind (py_get result ''url'' (JStr [])) (\<lambda>url.
     if \<not> hashable url then Inl TypeError
     else
       py_bind (py_get result ''issues'' (JList [])) (\<lambda>existing.
       py_bind (py_iter existing) (\<lambda>items.
       py_bind (py_contains ''content'' result) (\<lambda>has_content.
       py_bind (if has_content
                then py_bind (py_subscript result ''content'') (analyze_content url)
                else Inr []) (\<lambda>content_issues.
       py_bind (py_contains ''headers'' result) (\<lambda>has_headers.
       py_bind (if has_headers
                then py_bind (py_subscript result ''headers'') (analyze_headers url)
                else Inr []) (\<lambda>header_issues.
       Inr (fst st @ items @ content_issues @ header_issues,
            insert (py_key url) (snd st)))))))))"

fun process_results :: "json list \<Rightarrow> json list \<times> json set \<Rightarrow> py_error + json list \<times> json set" where
  "process_results [] st = Inr st"
| "process_results (result # results) st =
     py_bind (process_result st result) (process_results results)"

text \<open>\<^verbatim>\<open>severity in severity_counts\<close>: the lookup hashes the severity.\<close>

definition in_counts :: "json \<Rightarrow> (string \<times> int) list \<Rightarrow> py_error + bool" where
  "in_counts severity counts =
     (if \<not> hashable severity then Inl TypeError
      else Inr (case severity of JStr s \<Rightarrow> s \<in> fst ` set counts | _ \<Rightarrow> False))"

text \<open>\<^verbatim>\<open>severity_counts[severity] += 1\<close> for a severity that is a key.\<close>

definition increment :: "json \<Rightarrow> (string \<times> int) list \<Rightarrow> (string \<times> int) list" where
  "increment severity counts =
     map (\<lambda>(k, n). if JStr k = severity then (k, n + 1) else (k, n)) counts"

fun count_severities :: "json list \<Rightarrow> (string \<times> int) list \<Rightarrow> py_error + (string \<times> int) list" where
  "count_severities [] counts = Inr counts"
| "count_severities (issue # issues) counts =
     py_bind (py_get issue ''severity'' (JStr ''low'')) (\<lambda>severity.
     py_bind (in_counts severity counts) (\<lambda>known.
       count_severities issues (if known then increment severity counts else counts)))"

definition initial_counts :: "(string \<times> int) list" where
  "initial_counts = [(''critical'', 0), (''high'', 0), (''medium'', 0), (''low'', 0)]"

text \<open>\<^verbatim>\<open>severity_counts[k]\<close>\<close>

definition count_of :: "(string \<times> int) list \<Rightarrow> string \<Rightarrow> py_error + int" where
  "count_of counts k = (case map_of counts k of None \<Rightarrow> Inl KeyError | Some n \<Rightarrow> Inr n)"

definition compute_risk_score :: "(string \<times> int) list \<Rightarrow> py_error + int" where
  "compute_risk_score counts =
     py_bind (count_of counts ''critical'') (\<lambda>c.
     py_bind (count_of counts ''high'') (\<lambda>h.
     py_bind (count_of counts ''medium'') (\<lambda>m.
     py_bind (count_of counts ''low'') (\<lambda>l.
       Inr (min 100 (c * 25 + h * 10 + m * 5 + l * 1))))))"

definition compute_risk_level :: "int \<Rightarrow> string" where
  "compute_risk_level score =
     (if score > 75 then ''critical''
      else if score > 50 then ''high''
      else if score > 25 then ''medium''
      else ''low'')"

definition analyze_scan_results :: "json \<Rightarrow> py_error + report" where
  "analyze_scan_results results =
     py_bind (py_iter results) (\<lambda>records.
     py_bind (process_results records ([], {})) (\<lambda>st.
     py_bind (generate_recommendations (fst st)) (\<lambda>recs.
     py_bind (count_severities (fst st) initial_counts) (\<lambda>counts.
     py_bind (compute_risk_score counts) (\<lambda>score.
       Inr \<lparr>enhanced_issues = fst st,
            recommendations = recs,
            risk_score = score,
            risk_level = compute_risk_level score,
            severity_counts = counts,
            urls_analyzed = int (card (snd st))\<rparr>)))))"

section \<open>Notions used to state the properties\<close>

definition known_severities :: "string list" where
  "known_severities = [''critical'', ''high'', ''medium'', ''low'']"

text \<open>The severity the tally reads from a finding: \<^verbatim>\<open>issue.get('severity', 'low')\<close>.\<close>

definition severity_or_low :: "json \<Rightarrow> json" where
  "severity_or_low issue =
     (case py_get issue ''severity'' (JStr ''low'') of Inl e \<Rightarrow> JNull | Inr s \<Rightarrow> s)"

definition severity_tally :: "json list \<Rightarrow> string \<Rightarrow> int" where
  "severity_tally issues k = int (length (filter (\<lambda>i. severity_or_low i = JStr k) issues))"

text \<open>
  A finding whose severity is one of the four known values, as the specification words
  it: the finding has a \<^verbatim>\<open>severity\<close> field and the field holds one of the four names.
\<close>

definition has_known_severity :: "json \<Rightarrow> bool" where
  "has_known_severity issue =
     (case py_subscript issue ''severity'' of
        Inr (JStr s) \<Rightarrow> s \<in> set known_severities
      | _ \<Rightarrow> False)"

definition counts_total :: "report \<Rightarrow> int" where
  "counts_total rep = sum_list (map snd (severity_counts rep))"

definition known_severity_findings :: "report \<Rightarrow> int" where
  "known_severity_findings rep = int (length (filter has_known_severity (enhanced_issues rep)))"

text \<open>The \<^verbatim>\<open>id\<close> of a finding, and the seven recommendations in their fixed order.\<close>

definition id_of :: "json \<Rightarrow> json" where
  "id_of issue = (case py_subscript issue ''id'' of Inl e \<Rightarrow> JNull | Inr v \<Rightarrow> v)"

definition recommendation_catalog :: "(string \<times> string) list" where
  "recommendation_catalog = [
     (''deep_sql_injection'', rec_sql_injection),
     (''deep_xss_vulnerability'', rec_xss_vulnerability),
     (''deep_sensitive_data'', rec_sensitive_data),
     (''deep_path_traversal'', rec_path_traversal),
     (''deep_open_redirect'', rec_open_redirect),
     (''deep_insecure_cookie'', rec_insecure_cookie),
     (''deep_server_disclosure'', rec_server_disclosure)]"

text \<open>
  What one record contributes: its url (\<^verbatim>\<open>result.get('url', '')\<close>), its pre-existing
  issues, the findings of the content detector and the findings of the header detector
  (each the empty list where the record has no such part).
\<close>

definition url_of :: "json \<Rightarrow> json" where
  "url_of result = (case py_get result ''url'' (JStr []) of Inl e \<Rightarrow> JNull | Inr u \<Rightarrow> u)"

definition or_empty :: "py_error + json list \<Rightarrow> json list" where
  "or_empty m = (case m of Inl e \<Rightarrow> [] | Inr xs \<Rightarrow> xs)"

definition passed_issues :: "json \<Rightarrow> json list" where
  "passed_issues result = or_empty (py_bind (py_get result ''issues'' (JList [])) py_iter)"

definition content_findings :: "json \<Rightarrow> json list" where
  "content_findings result =
     or_empty (py_bind (py_contains ''content'' result) (\<lambda>has_content.
       if has_content
       then py_bind (py_subscript result ''content'') (analyze_content (url_of result))
       else Inr []))"

definition header_findings :: "json \<Rightarrow> json list" where
  "header_findings result =
     or_empty (py_bind (py_contains ''headers'' result) (\<lambda>has_headers.
       if has_headers
       then py_bind (py_subscript result ''headers'') (analyze_headers (url_of result))
       else Inr []))"

definition record_findings :: "json \<Rightarrow> json list" where
  "record_findings result =
     passed_issues result @ content_findings result @ header_findings result"

text \<open>
  The attribute tokens of a \<^verbatim>\<open>Set-Cookie\<close> value in the specification's sense, read
  generously: the value is cut at every \<^verbatim>\<open>;\<close> and \<^verbatim>\<open>=\<close>, and each piece, trimmed and in
  lower case, is a token. This definition follows the specification's wording and is not
  taken from the code, which looks for a substring.
\<close>

fun split_on :: "char \<Rightarrow> string \<Rightarrow> string list" where
  "split_on sep [] = [[]]"
| "split_on sep (c # cs) =
     (if c = sep then [] # split_on sep cs
      else (case split_on sep cs of [] \<Rightarrow> [[c]] | w # ws \<Rightarrow> (c # w) # ws))"

definition spec_cookie_tokens :: "string \<Rightarrow> string list" where
  "spec_cookie_tokens v =
     map (\<lambda>w. map lower_char (py_strip w))
       (concat (map (split_on CHR ''='') (split_on CHR '';'' v)))"

definition spec_has_cookie_token :: "string \<Rightarrow> string \<Rightarrow> bool" where
  "spec_has_cookie_token name v = (name \<in> set (spec_cookie_tokens v))"

text \<open>
  The cursor \<open>n\<close> characters further on (it stays at the end of the text), and the
  cursor at an offset of a text.
\<close>

fun advance :: "nat \<Rightarrow> 'c cursor \<Rightarrow> 'c cursor" where
  "advance 0 cur = cur"
| "advance (Suc n) (p, []) = (p, [])"
| "advance (Suc n) (p, x # xs) = advance n (Some x, xs)"

definition cursor_at :: "'c list \<Rightarrow> nat \<Rightarrow> 'c cursor" where
  "cursor_at t q = advance q (None, t)"

text \<open>The least number of characters a match of a pattern consumes.\<close>

fun min_len :: "rx \<Rightarrow> nat" where
  "min_len (Str w) = length w"
| "min_len (Cls k) = 1"
| "min_len (Star k) = 0"
| "min_len (Plus k) = 1"
| "min_len (Opt r) = 0"
| "min_len WordB = 0"
| "min_len (Seq a b) = min_len a + min_len b"
| "min_len (Alt a b) = min (min_len a) (min_len b)"

text \<open>
  Spans that lie between \<open>lo\<close> and \<open>hi\<close>, each non-empty, in ascending order and without
  overlap: each begins at or after the end of the one before.
\<close>

fun spans_in_order :: "nat \<Rightarrow> (nat \<times> nat) list \<Rightarrow> nat \<Rightarrow> bool" where
  "spans_in_order lo [] hi = (lo \<le> hi)"
| "spans_in_order lo ((s, e) # ms) hi = (lo \<le> s \<and> s < e \<and> spans_in_order e ms hi)"

text \<open>The text between two offsets, \<^verbatim>\<open>t[i:j]\<close> for \<open>i \<le> j\<close>.\<close>

definition between :: "'c list \<Rightarrow> nat \<Rightarrow> nat \<Rightarrow> 'c list" where
  "between t i j = take (j - i) (drop i t)"

text \<open>
  What it is for a pattern to match a text from offset \<open>i\<close> to offset \<open>j\<close>, said of the
  text and the offsets alone, with no reference to the matcher. \<^verbatim>\<open>\b\<close> holds at an offset
  where exactly one of the characters before and after it is a word character, a missing
  character counting as none. A literal matches the characters between the offsets one
  by one; a star of a class matches any run of characters of the class; a sequence
  matches when the text splits at some offset between the two.
\<close>

definition boundary_at :: "'c tables \<Rightarrow> 'c list \<Rightarrow> nat \<Rightarrow> bool" where
  "boundary_at db t i =
     ((0 < i \<and> word_char db (t ! (i - 1))) \<noteq> (i < length t \<and> word_char db (t ! i)))"

fun rx_lang :: "'c tables \<Rightarrow> rx \<Rightarrow> 'c list \<Rightarrow> nat \<Rightarrow> nat \<Rightarrow> bool" where
  "rx_lang db (Str w) t i j =
     (i \<le> j \<and> j \<le> length t \<and> list_all2 (lit_match db) w (between t i j))"
| "rx_lang db (Cls k) t i j = (j = Suc i \<and> j \<le> length t \<and> in_class db k (t ! i))"
| "rx_lang db (Star k) t i j =
     (i \<le> j \<and> j \<le> length t \<and> list_all (in_class db k) (between t i j))"
| "rx_lang db (Plus k) t i j =
     (i < j \<and> j \<le> length t \<and> list_all (in_class db k) (between t i j))"
| "rx_lang db (Opt r) t i j = (j = i \<and> i \<le> length t \<or> rx_lang db r t i j)"
| "rx_lang db WordB t i j = (j = i \<and> i \<le> length t \<and> boundary_at db t i)"
| "rx_lang db (Seq a b) t i j = (\<exists>m \<in> {i..j}. rx_lang db a t i m \<and> rx_lang db b t m j)"
| "rx_lang db (Alt a b) t i j = (rx_lang db a t i j \<or> rx_lang db b t i j)"

text \<open>
  Case. Two characters have the same lower case; a literal, a class and a pattern are
  blind to case under given tables when no test they make tells two such characters
  apart; two cursors differ in case only.
\<close>

definition same_lower :: "'c tables \<Rightarrow> 'c \<Rightarrow> 'c \<Rightarrow> bool" where
  "same_lower db x y = (tolower db x = tolower db y)"

definition lit_blind :: "'c tables \<Rightarrow> char \<Rightarrow> bool" where
  "lit_blind db c = (\<forall>x y. same_lower db x y \<longrightarrow> lit_match db c x = lit_match db c y)"

definition class_blind :: "'c tables \<Rightarrow> cclass \<Rightarrow> bool" where
  "class_blind db k = (\<forall>x y. same_lower db x y \<longrightarrow> in_class db k x = in_class db k y)"

fun case_blind :: "'c tables \<Rightarrow> rx \<Rightarrow> bool" where
  "case_blind db (Str w) = (\<forall>c \<in> set w. lit_blind db c)"
| "case_blind db (Cls k) = class_blind db k"
| "case_blind db (Star k) = class_blind db k"
| "case_blind db (Plus k) = class_blind db k"
| "case_blind db (Opt r) = case_blind db r"
| "case_blind db WordB = class_blind db Word"
| "case_blind db (Seq a b) = (case_blind db a \<and> case_blind db b)"
| "case_blind db (Alt a b) = (case_blind db a \<and> case_blind db b)"

definition same_fold :: "'c tables \<Rightarrow> 'c cursor \<Rightarrow> 'c cursor \<Rightarrow> bool" where
  "same_fold db c1 c2 =
     (rel_option (same_lower db) (fst c1) (fst c2) \<and>
      list_all2 (same_lower db) (snd c1) (snd c2))"

section \<open>Sample batches\<close>

text \<open>Concrete batches, and the reports the analysis returns for them.\<close>

definition batch_mixed :: json where
  "batch_mixed =
     JList [JObj [(''url'', JStr ''a''),
                  (''issues'', JList [JObj [(''id'', JStr ''x'')],
                                      JObj [(''id'', JStr ''y''), (''severity'', JStr ''bogus'')],
                                      JObj [(''id'', JStr ''z''), (''severity'', JStr ''high'')]])]]"

definition report_mixed :: report where
  "report_mixed =
     \<lparr>enhanced_issues = [JObj [(''id'', JStr ''x'')],
                          JObj [(''id'', JStr ''y''), (''severity'', JStr ''bogus'')],
                          JObj [(''id'', JStr ''z''), (''severity'', JStr ''high'')]],
      recommendations = [],
      risk_score = 11,
      risk_level = ''low'',
      severity_counts = [(''critical'', 0), (''high'', 1), (''medium'', 0), (''low'', 1)],
      urls_analyzed = 1\<rparr>"

definition batch_five_critical :: json where
  "batch_five_critical =
     JList [JObj [(''issues'', JList (replicate 5
       (JObj [(''id'', JStr ''x''), (''severity'', JStr ''critical'')])))]]"

definition report_five_critical :: report where
  "report_five_critical =
     \<lparr>enhanced_issues =
        replicate 5 (JObj [(''id'', JStr ''x''), (''severity'', JStr ''critical'')]),
      recommendations = [],
      risk_score = 100,
      risk_level = ''critical'',
      severity_counts = [(''critical'', 5), (''high'', 0), (''medium'', 0), (''low'', 0)],
      urls_analyzed = 1\<rparr>"

definition batch_score_76 :: json where
  "batch_score_76 =
     JList [JObj [(''issues'', JList
       [JObj [(''id'', JStr ''x''), (''severity'', JStr ''critical'')],
        JObj [(''id'', JStr ''x''), (''severity'', JStr ''critical'')],
        JObj [(''id'', JStr ''x''), (''severity'', JStr ''critical'')],
        JObj [(''id'', JStr ''x''), (''severity'', JStr ''low'')]])]]"

definition report_score_76 :: report where
  "report_score_76 =
     \<lparr>enhanced_issues =
        [JObj [(''id'', JStr ''x''), (''severity'', JStr ''critical'')],
         JObj [(''id'', JStr ''x''), (''severity'', JStr ''critical'')],
         JObj [(''id'', JStr ''x''), (''severity'', JStr ''critical'')],
         JObj [(''id'', JStr ''x''), (''severity'', JStr ''low'')]],
      recommendations = [],
      risk_score = 76,
      risk_level = ''critical'',
      severity_counts = [(''critical'', 3), (''high'', 0), (''medium'', 0), (''low'', 1)],
      urls_analyzed = 1\<rparr>"

definition issues_hundred_sql :: "json list" where
  "issues_hundred_sql =
     JObj [(''id'', JStr ''deep_server_disclosure'')] #
     JObj [(''id'', JStr ''upstream_kind'')] #
     replicate 100 (JObj [(''id'', JStr ''deep_sql_injection''), (''severity'', JStr ''critical'')])"

definition records_two :: "json list" where
  "records_two =
     [JObj [(''url'', JStr ''u1''),
            (''issues'', JList [JObj [(''id'', JStr ''p1''), (''severity'', JStr ''low'')]]),
            (''content'', JStr ''r=1''),
            (''headers'', JObj [(''server'', JStr ''nginx'')])],
      JObj [(''url'', JStr ''u2''),
            (''issues'', JList [JObj [(''id'', JStr ''p2''), (''severity'', JStr ''low'')]])]]"

definition report_two :: report where
  "report_two =
     \<lparr>enhanced_issues =
        [JObj [(''id'', JStr ''p1''), (''severity'', JStr ''low'')],
         JObj [(''id'', JStr ''deep_open_redirect''),
               (''severity'', JStr ''medium''),
               (''details'', JStr ''Potential open redirect detected''),
               (''context'', JStr ''r=1''),
               (''url'', JStr ''u1''),
               (''position'', JInt 0)],
         JObj [(''id'', JStr ''deep_server_disclosure''),
               (''severity'', JStr ''medium''),
               (''details'', JStr ''Server header reveals software information''),
               (''context'', JStr ''nginx''),
               (''url'', JStr ''u1'')],
         JObj [(''id'', JStr ''p2''), (''severity'', JStr ''low'')]],
      recommendations = [rec_open_redirect, rec_server_disclosure],
      risk_score = 12,
      risk_level = ''low'',
      severity_counts = [(''critical'', 0), (''high'', 0), (''medium'', 2), (''low'', 2)],
      urls_analyzed = 2\<rparr>"

definition records_urls :: "json list" where
  "records_urls =
     [JObj [(''url'', JStr [])], JObj [(''url'', JStr ''a'')], JObj [(''url'', JStr ''a'')],
      JObj []]"

definition report_urls :: report where
  "report_urls =
     \<lparr>enhanced_issues = [],
      recommendations = [],
      risk_score = 0,
      risk_level = ''low'',
      severity_counts = [(''critical'', 0), (''high'', 0), (''medium'', 0), (''low'', 0)],
      urls_analyzed = 2\<rparr>"

text \<open>
  Texts for the content detector. The last one holds characters beyond code point 255;
  \<open>unicode_excerpt\<close> gives the entries of the character tables for the ASCII characters
  and for the code points \<^verbatim>\<open>U+0130\<close>, \<^verbatim>\<open>U+0131\<close>, \<^verbatim>\<open>U+017F\<close>, \<^verbatim>\<open>U+212A\<close> and \<^verbatim>\<open>U+2003\<close>
  (dotted capital I, dotless i, long s, the Kelvin sign and the em space) as the Unicode
  database has them, and no others: it is to be applied to texts of these characters
  only.
\<close>

definition sample_sql :: string where
  "sample_sql = ''SELECT * FROM users WHERE id=1''"

definition sample_xss :: string where
  "sample_xss = ''<script src=x>alert(1)</script>''"

definition sample_unicode :: "int list" where
  "sample_unicode = [0x2003, 0x50, 0x41, 0x17F, 0x17F, 0x57, 0x4F, 0x52, 0x44, 0x2003]"

definition unicode_excerpt :: "int tables" where
  "unicode_excerpt = \<lparr>
     chr = of_char,
     tolower = (\<lambda>n. if 65 \<le> n \<and> n \<le> 90 then n + 32
                     else if n = 0x130 then 0x69 else if n = 0x212A then 0x6B else n),
     iscased = (\<lambda>n. (65 \<le> n \<and> n \<le> 90) \<or> (97 \<le> n \<and> n \<le> 122) \<or>
                     n = 0x130 \<or> n = 0x131 \<or> n = 0x17F \<or> n = 0x212A),
     isspace = (\<lambda>n. (9 \<le> n \<and> n \<le> 13) \<or> (28 \<le> n \<and> n \<le> 32) \<or> n = 0x2003),
     isalnum = (\<lambda>n. (48 \<le> n \<and> n \<le> 57) \<or> (65 \<le> n \<and> n \<le> 90) \<or> (97 \<le> n \<and> n \<le> 122) \<or>
                     n = 0x130 \<or> n = 0x131 \<or> n = 0x17F \<or> n = 0x212A),
     equivalents = (\<lambda>n. if n = 0x69 then [0x131] else if n = 0x73 then [0x17F] else [])\<rparr>"

section \<open>Evaluating the character tests\<close>

text \<open>The tests on code points below 256, computed on integers.\<close>

lemma code_point_int: "int (code_point c) = of_char c"
  by (simp add: code_point_def of_nat_of_char)

lemma is_space_code [code]:
  "is_space c = (let n = (of_char c :: int) in
     (9 \<le> n \<and> n \<le> 13) \<or> (28 \<le> n \<and> n \<le> 32) \<or> n = 133 \<or> n = 160)"
  unfolding is_space_def Let_def code_point_int [symmetric] by simp

lemma is_alnum_code [code]:
  "is_alnum c = (let n = (of_char c :: int) in
     (48 \<le> n \<and> n \<le> 57) \<or> (65 \<le> n \<and> n \<le> 90) \<or> (97 \<le> n \<and> n \<le> 122) \<or>
     n = 170 \<or> n = 178 \<or> n = 179 \<or> n = 181 \<or> n = 185 \<or> n = 186 \<or>
     (188 \<le> n \<and> n \<le> 190) \<or> (192 \<le> n \<and> n \<le> 214) \<or>
     (216 \<le> n \<and> n \<le> 246) \<or> (248 \<le> n \<and> n \<le> 255))"
  unfolding is_alnum_def Let_def code_point_int [symmetric] by simp

lemma is_cased_code [code]:
  "is_cased c = (let n = (of_char c :: int) in
     (65 \<le> n \<and> n \<le> 90) \<or> (97 \<le> n \<and> n \<le> 122) \<or> n = 181 \<or>
     (192 \<le> n \<and> n \<le> 214) \<or> (216 \<le> n \<and> n \<le> 246) \<or> (248 \<le> n \<and> n \<le> 255))"
  unfolding is_cased_def Let_def code_point_int [symmetric] by simp

lemma lower_char_code [code]:
  "lower_char c = (let n = (of_char c :: int) in
     if (65 \<le> n \<and> n \<le> 90) \<or> (192 \<le> n \<and> n \<le> 222 \<and> n \<noteq> 215)
     then char_of (n + 32) else c)"
proof -
  have "char_of (int (code_point c) + 32) = (char_of (code_point c + 32) :: char)"
    by (metis char_of_nat of_nat_add of_nat_numeral)
  then show ?thesis
    unfolding lower_char_def Let_def code_point_int [symmetric] by simp
qed

section \<open>Results and errors\<close>

lemma py_bind_Inr [simp]: "py_bind (Inr x) f = f x"
  by (simp add: py_bind_def)

lemma py_bind_Inl [simp]: "py_bind (Inl e) f = Inl e"
  by (simp add: py_bind_def)

lemma py_bind_eq_Inr: "(py_bind m f = Inr y) = (\<exists>x. m = Inr x \<and> f x = Inr y)"
  by (cases m) simp_all

lemma py_get_Inr:
  "py_get v k d = Inr x \<Longrightarrow>
     \<exists>kvs. v = JObj kvs \<and> x = (case map_of kvs k of None \<Rightarrow> d | Some w \<Rightarrow> w)"
  by (cases v) auto

lemma in_counts_Inr:
  "in_counts severity counts = Inr b \<Longrightarrow>
     b = (\<exists>k. severity = JStr k \<and> k \<in> fst ` set counts)"
  by (cases severity) (auto simp: in_counts_def split: if_splits)

lemma count_severities_map:
  "count_severities issues counts = Inr counts' \<Longrightarrow>
     counts' = map (\<lambda>(k, n). (k, n + severity_tally issues k)) counts"
proof (induction issues arbitrary: counts)
  case Nil
  then show ?case by (simp add: severity_tally_def)
next
  case (Cons issue issues)
  from Cons.prems obtain severity known where
    g: "py_get issue ''severity'' (JStr ''low'') = Inr severity" and
    k: "in_counts severity counts = Inr known" and
    r: "count_severities issues (if known then increment severity counts else counts) = Inr counts'"
    by (auto simp: py_bind_eq_Inr)
  have sev: "severity_or_low issue = severity"
    using g by (simp add: severity_or_low_def)
  have tally: "severity_tally (issue # issues) k =
      (if severity = JStr k then 1 else 0) + severity_tally issues k" for k
    by (simp add: severity_tally_def sev)
  note kn = in_counts_Inr [OF k]
  show ?case
  proof (cases known)
    case True
    with r have "counts' = map (\<lambda>(k, n). (k, n + severity_tally issues k)) (increment severity counts)"
      using Cons.IH by simp
    then show ?thesis
      by (auto simp: increment_def tally)
  next
    case False
    with r have c: "counts' = map (\<lambda>(k, n). (k, n + severity_tally issues k)) counts"
      using Cons.IH by simp
    from False kn have "\<And>k n. (k, n) \<in> set counts \<Longrightarrow> severity \<noteq> JStr k"
      by force
    then show ?thesis
      unfolding c by (auto simp: tally)
  qed
qed

lemma filter_four_length:
  assumes "a \<noteq> b" "a \<noteq> c" "a \<noteq> d" "b \<noteq> c" "b \<noteq> d" "c \<noteq> d"
  shows "length (filter (\<lambda>i. f i = a) xs) + length (filter (\<lambda>i. f i = b) xs) +
         length (filter (\<lambda>i. f i = c) xs) + length (filter (\<lambda>i. f i = d) xs) =
         length (filter (\<lambda>i. f i \<in> {a, b, c, d}) xs)"
  using assms by (induction xs) auto

lemma analyze_scan_results_Inr:
  assumes "analyze_scan_results batch = Inr rep"
  shows "\<exists>records issues urls.
     py_iter batch = Inr records \<and>
     process_results records ([], {}) = Inr (issues, urls) \<and>
     generate_recommendations issues = Inr (recommendations rep) \<and>
     count_severities issues initial_counts = Inr (severity_counts rep) \<and>
     compute_risk_score (severity_counts rep) = Inr (risk_score rep) \<and>
     enhanced_issues rep = issues \<and>
     risk_level rep = compute_risk_level (risk_score rep) \<and>
     urls_analyzed rep = int (card urls)"
proof -
  from assms obtain records where i: "py_iter batch = Inr records"
    by (auto simp: analyze_scan_results_def py_bind_eq_Inr)
  from assms i obtain st where p: "process_results records ([], {}) = Inr st"
    by (auto simp: analyze_scan_results_def py_bind_eq_Inr)
  from assms i p obtain recs where g: "generate_recommendations (fst st) = Inr recs"
    by (auto simp: analyze_scan_results_def py_bind_eq_Inr)
  from assms i p g obtain counts where c: "count_severities (fst st) initial_counts = Inr counts"
    by (auto simp: analyze_scan_results_def py_bind_eq_Inr)
  from assms i p g c obtain score where s: "compute_risk_score counts = Inr score"
    by (auto simp: analyze_scan_results_def py_bind_eq_Inr)
  from assms i p g c s have rep: "rep = \<lparr>enhanced_issues = fst st, recommendations = recs,
      risk_score = score, risk_level = compute_risk_level score, severity_counts = counts,
      urls_analyzed = int (card (snd st))\<rparr>"
    by (simp add: analyze_scan_results_def)
  show ?thesis
    using i p g c s by (intro exI [of _ records] exI [of _ "fst st"] exI [of _ "snd st"])
      (simp add: rep)
qed

lemma counts_of_report:
  assumes "analyze_scan_results batch = Inr rep"
  shows "severity_counts rep =
     map (\<lambda>k. (k, severity_tally (enhanced_issues rep) k)) known_severities"
proof -
  from analyze_scan_results_Inr [OF assms] obtain issues where
    c: "count_severities issues initial_counts = Inr (severity_counts rep)" and
    e: "enhanced_issues rep = issues"
    by blast
  from count_severities_map [OF c] show ?thesis
    by (simp add: e initial_counts_def known_severities_def)
qed

lemma score_of_report:
  assumes "analyze_scan_results batch = Inr rep"
  shows "compute_risk_score (severity_counts rep) = Inr (risk_score rep)"
    and "risk_level rep = compute_risk_level (risk_score rep)"
  using analyze_scan_results_Inr [OF assms] by blast+

section \<open>Severity counts, risk score and risk level\<close>

text \<open>
  C1, as the code has it. Whenever the analysis returns a report, each of the four counts
  is the number of findings of \<open>enhanced_issues\<close> whose severity, read as \<^verbatim>\<open>low\<close> when the
  finding has no \<^verbatim>\<open>severity\<close> field, is that name; so a finding with an unrecognised
  severity is counted nowhere and a finding without a severity is counted as low. Every
  count is non-negative, and the counts sum to the number of findings whose severity, read
  that way, is one of the four known values.
\<close>

theorem severity_counts_tally:
  assumes "analyze_scan_results batch = Inr rep"
  shows "severity_counts rep =
           map (\<lambda>k. (k, severity_tally (enhanced_issues rep) k)) known_severities \<and>
         (\<forall>(k, n) \<in> set (severity_counts rep). 0 \<le> n) \<and>
         sum_list (map snd (severity_counts rep)) =
           int (length (filter (\<lambda>i. severity_or_low i \<in> JStr ` set known_severities)
                          (enhanced_issues rep)))"
proof -
  note c = counts_of_report [OF assms]
  have nonneg: "\<forall>(k, n) \<in> set (severity_counts rep). 0 \<le> n"
    unfolding c by (auto simp: severity_tally_def)
  have "sum_list (map snd (severity_counts rep)) =
      int (length (filter (\<lambda>i. severity_or_low i = JStr ''critical'') (enhanced_issues rep)) +
           length (filter (\<lambda>i. severity_or_low i = JStr ''high'') (enhanced_issues rep)) +
           length (filter (\<lambda>i. severity_or_low i = JStr ''medium'') (enhanced_issues rep)) +
           length (filter (\<lambda>i. severity_or_low i = JStr ''low'') (enhanced_issues rep)))"
    unfolding c by (simp add: known_severities_def severity_tally_def)
  also have "\<dots> = int (length (filter (\<lambda>i. severity_or_low i \<in>
        {JStr ''critical'', JStr ''high'', JStr ''medium'', JStr ''low''}) (enhanced_issues rep)))"
    by (subst filter_four_length) simp_all
  finally have total: "sum_list (map snd (severity_counts rep)) =
      int (length (filter (\<lambda>i. severity_or_low i \<in> JStr ` set known_severities)
                     (enhanced_issues rep)))"
    by (simp add: known_severities_def)
  from c nonneg total show ?thesis by blast
qed

theorem severity_counts_tally_witness:
  "analyze_scan_results batch_mixed = Inr report_mixed \<and>
   severity_counts report_mixed =
     map (\<lambda>k. (k, severity_tally (enhanced_issues report_mixed) k)) known_severities \<and>
   sum_list (map snd (severity_counts report_mixed)) =
     int (length (filter (\<lambda>i. severity_or_low i \<in> JStr ` set known_severities)
                    (enhanced_issues report_mixed)))"
proof -
  have a: "analyze_scan_results batch_mixed = Inr report_mixed"
    by code_simp
  from severity_counts_tally [OF a] a show ?thesis
    by blast
qed

text \<open>
  The claim C1 as it is worded fails on a finding without a \<^verbatim>\<open>severity\<close> field: the
  report counts it as low, so the counts sum to 1 while no finding of \<open>enhanced_issues\<close>
  has a severity among the four known values.
\<close>

theorem severity_counts_missing_counterexample:
  "map_sum id counts_total (analyze_scan_results
     (JList [JObj [(''url'', JStr ''a''), (''issues'', JList [JObj [(''id'', JStr ''x'')]])]])) =
     Inr 1 \<and>
   map_sum id known_severity_findings (analyze_scan_results
     (JList [JObj [(''url'', JStr ''a''), (''issues'', JList [JObj [(''id'', JStr ''x'')]])]])) =
     Inr 0"
  by code_simp

text \<open>
  C2. Whenever the analysis returns a report, its \<open>risk_score\<close> is
  \<open>min 100 (25 * critical + 10 * high + 5 * medium + 1 * low)\<close> of the four counts of
  \<open>severity_counts\<close>; it is the value of \<open>compute_risk_score\<close>, a function of
  \<open>severity_counts\<close> alone; and it lies between 0 and 100 inclusive.
\<close>

theorem risk_score_formula:
  assumes "analyze_scan_results batch = Inr rep"
  shows "\<exists>c h m l.
           severity_counts rep = [(''critical'', c), (''high'', h), (''medium'', m), (''low'', l)] \<and>
           risk_score rep = min 100 (25 * c + 10 * h + 5 * m + 1 * l) \<and>
           compute_risk_score (severity_counts rep) = Inr (risk_score rep) \<and>
           0 \<le> risk_score rep \<and> risk_score rep \<le> 100"
proof -
  let ?t = "severity_tally (enhanced_issues rep)"
  have c: "severity_counts rep = [(''critical'', ?t ''critical''), (''high'', ?t ''high''),
      (''medium'', ?t ''medium''), (''low'', ?t ''low'')]"
    using counts_of_report [OF assms] by (simp add: known_severities_def)
  have s: "compute_risk_score (severity_counts rep) = Inr (risk_score rep)"
    by (rule score_of_report [OF assms])
  have nn: "0 \<le> ?t k" for k by (simp add: severity_tally_def)
  from s have f: "risk_score rep =
      min 100 (25 * ?t ''critical'' + 10 * ?t ''high'' + 5 * ?t ''medium'' + 1 * ?t ''low'')"
    unfolding c by (simp add: compute_risk_score_def count_of_def)
  have "0 \<le> risk_score rep \<and> risk_score rep \<le> 100"
    unfolding f using nn [of "''critical''"] nn [of "''high''"] nn [of "''medium''"] nn [of "''low''"]
    by simp
  with c f s show ?thesis by blast
qed

theorem risk_score_formula_witness:
  "analyze_scan_results batch_five_critical = Inr report_five_critical \<and>
   (\<exists>c h m l.
      severity_counts report_five_critical =
        [(''critical'', c), (''high'', h), (''medium'', m), (''low'', l)] \<and>
      risk_score report_five_critical = min 100 (25 * c + 10 * h + 5 * m + 1 * l) \<and>
      compute_risk_score (severity_counts report_five_critical) =
        Inr (risk_score report_five_critical) \<and>
      0 \<le> risk_score report_five_critical \<and> risk_score report_five_critical \<le> 100) \<and>
   risk_score report_five_critical = 100"
proof -
  have a: "analyze_scan_results batch_five_critical = Inr report_five_critical"
    by code_simp
  have b: "risk_score report_five_critical = 100"
    by (simp add: report_five_critical_def)
  from risk_score_formula [OF a] a b show ?thesis
    by blast
qed

text \<open>
  C3. Whenever the analysis returns a report, its \<open>risk_level\<close> is \<^verbatim>\<open>critical\<close> if the
  \<open>risk_score\<close> is above 75, else \<^verbatim>\<open>high\<close> if it is above 50, else \<^verbatim>\<open>medium\<close> if it is
  above 25, else \<^verbatim>\<open>low\<close>; the level computed for the scores 76, 75, 51, 50, 26, 25 and 0
  is critical, high, high, medium, medium, low and low.
\<close>

theorem risk_level_thresholds:
  assumes "analyze_scan_results batch = Inr rep"
  shows "risk_level rep =
           (if risk_score rep > 75 then ''critical''
            else if risk_score rep > 50 then ''high''
            else if risk_score rep > 25 then ''medium''
            else ''low'') \<and>
         compute_risk_level 76 = ''critical'' \<and> compute_risk_level 75 = ''high'' \<and>
         compute_risk_level 51 = ''high'' \<and> compute_risk_level 50 = ''medium'' \<and>
         compute_risk_level 26 = ''medium'' \<and> compute_risk_level 25 = ''low'' \<and>
         compute_risk_level 0 = ''low''"
  using score_of_report(2) [OF assms] by (simp add: compute_risk_level_def)

theorem risk_level_thresholds_witness:
  "analyze_scan_results batch_score_76 = Inr report_score_76 \<and>
   risk_score report_score_76 = 76 \<and>
   risk_level report_score_76 =
     (if risk_score report_score_76 > 75 then ''critical''
      else if risk_score report_score_76 > 50 then ''high''
      else if risk_score report_score_76 > 25 then ''medium''
      else ''low'') \<and>
   risk_level report_score_76 = ''critical''"
proof -
  have a: "analyze_scan_results batch_score_76 = Inr report_score_76"
    by code_simp
  have b: "risk_score report_score_76 = 76" "risk_level report_score_76 = ''critical''"
    by (simp_all add: report_score_76_def)
  from risk_level_thresholds [OF a] a b show ?thesis
    by blast
qed

section \<open>The scenario of one critical pass-through finding\<close>

text \<open>
  C4, as the code has it. For the batch
  \<^verbatim>\<open>[{"url":"a","issues":[{"id":"x","severity":"critical"}]}]\<close> the analysis returns the
  report with the one finding in \<open>enhanced_issues\<close>, no recommendation, the critical count
  1, \<open>risk_score\<close> 25, \<open>urls_analyzed\<close> 1, and \<open>risk_level\<close> \<^verbatim>\<open>low\<close> (25 is not above 25).
\<close>

theorem scenario_one_critical:
  "analyze_scan_results
     (JList [JObj [(''url'', JStr ''a''),
                   (''issues'', JList [JObj [(''id'', JStr ''x''),
                                             (''severity'', JStr ''critical'')]])]]) =
   Inr \<lparr>enhanced_issues = [JObj [(''id'', JStr ''x''), (''severity'', JStr ''critical'')]],
        recommendations = [],
        risk_score = 25,
        risk_level = ''low'',
        severity_counts = [(''critical'', 1), (''high'', 0), (''medium'', 0), (''low'', 0)],
        urls_analyzed = 1\<rparr>"
  by code_simp

text \<open>The claim C4 as it is worded gives the level \<^verbatim>\<open>medium\<close> for this batch; the code does not.\<close>

theorem scenario_one_critical_counterexample:
  "map_sum id risk_level (analyze_scan_results
     (JList [JObj [(''url'', JStr ''a''),
                   (''issues'', JList [JObj [(''id'', JStr ''x''),
                                             (''severity'', JStr ''critical'')]])]])) \<noteq>
   Inr ''medium''"
  by code_simp

section \<open>Recommendations\<close>

lemma py_key_eq_JStr [simp]: "(py_key v = JStr k) = (v = JStr k)"
  by (cases v) auto

lemma py_key_JStr_image: "(JStr k \<in> (\<lambda>i. py_key (f i)) ` A) = (JStr k \<in> f ` A)"
  by (auto simp: image_iff) (metis py_key_eq_JStr)+

lemma issue_ids_Inr:
  "issue_ids issues acc = Inr S \<Longrightarrow>
     S = (\<lambda>i. py_key (id_of i)) ` set issues \<union> acc \<and>
     (\<forall>i \<in> set issues. py_subscript i ''id'' = Inr (id_of i) \<and> hashable (id_of i))"
proof (induction issues arbitrary: acc)
  case Nil
  then show ?case by simp
next
  case (Cons issue issues)
  from Cons.prems obtain v where
    v: "py_subscript issue ''id'' = Inr v" and h: "hashable v" and
    r: "issue_ids issues (insert (py_key v) acc) = Inr S"
    by (auto simp: py_bind_eq_Inr split: if_splits)
  have i: "id_of issue = v" using v by (simp add: id_of_def)
  from Cons.IH [OF r] v h i show ?case by auto
qed

lemma append_if_filter:
  "append_if S k t (map snd (filter (\<lambda>(ident, advice). JStr ident \<in> S) cat)) =
     map snd (filter (\<lambda>(ident, advice). JStr ident \<in> S) (cat @ [(k, t)]))"
  by (simp add: append_if_def)

lemma generate_recommendations_Inr:
  assumes "generate_recommendations issues = Inr recs"
  shows "recs = map snd (filter (\<lambda>(ident, advice). JStr ident \<in> id_of ` set issues)
                    recommendation_catalog)"
    and "\<forall>i \<in> set issues. py_subscript i ''id'' = Inr (id_of i) \<and> hashable (id_of i)"
proof -
  from assms obtain S where S: "issue_ids issues {} = Inr S" and
    r: "recs =
       append_if S ''deep_server_disclosure'' rec_server_disclosure (
       append_if S ''deep_insecure_cookie'' rec_insecure_cookie (
       append_if S ''deep_open_redirect'' rec_open_redirect (
       append_if S ''deep_path_traversal'' rec_path_traversal (
       append_if S ''deep_sensitive_data'' rec_sensitive_data (
       append_if S ''deep_xss_vulnerability'' rec_xss_vulnerability (
       append_if S ''deep_sql_injection'' rec_sql_injection
         (map snd (filter (\<lambda>(ident, advice). JStr ident \<in> S) []))))))))"
    by (auto simp: generate_recommendations_def py_bind_eq_Inr Let_def)
  from issue_ids_Inr [OF S] have
    Seq: "S = (\<lambda>i. py_key (id_of i)) ` set issues" and
    ok: "\<forall>i \<in> set issues. py_subscript i ''id'' = Inr (id_of i) \<and> hashable (id_of i)"
    by simp_all
  have "recs = map snd (filter (\<lambda>(ident, advice). JStr ident \<in> S) recommendation_catalog)"
    unfolding r append_if_filter recommendation_catalog_def by simp
  then show "recs = map snd (filter (\<lambda>(ident, advice). JStr ident \<in> id_of ` set issues)
                    recommendation_catalog)"
    unfolding Seq py_key_JStr_image .
  from ok show "\<forall>i \<in> set issues. py_subscript i ''id'' = Inr (id_of i) \<and> hashable (id_of i)" .
qed

lemma catalog_distinct:
  "distinct (map fst recommendation_catalog)" "distinct (map snd recommendation_catalog)"
  by (simp_all add: recommendation_catalog_def rec_sql_injection_def rec_xss_vulnerability_def
      rec_sensitive_data_def rec_path_traversal_def rec_open_redirect_def
      rec_insecure_cookie_def rec_server_disclosure_def)

lemma filter_catalog_length:
  assumes "distinct (map fst cat)" "finite S"
  shows "length (filter (\<lambda>(ident, advice). JStr ident \<in> S) cat) \<le> card S"
proof -
  let ?ks = "filter (\<lambda>k. JStr k \<in> S) (map fst cat)"
  have "length (filter (\<lambda>(ident, advice). JStr ident \<in> S) cat) = length ?ks"
    by (induction cat) auto
  also have "\<dots> = card (set ?ks)"
    using assms(1) by (simp only: distinct_card [OF distinct_filter])
  also have "\<dots> = card (JStr ` set ?ks)"
    by (rule card_image [symmetric]) (simp add: inj_on_def)
  also have "\<dots> \<le> card S"
    using assms(2) by (intro card_mono) auto
  finally show ?thesis .
qed

text \<open>
  C7. Whenever the generator returns, its list holds the advice of exactly those of the
  seven known ids that are the \<^verbatim>\<open>id\<close> of some finding, in the fixed order of the catalog
  (sql injection, xss, sensitive data, path traversal, open redirect, insecure cookie,
  server disclosure) whatever the order and the number of the findings; no advice is
  listed twice, the list is no longer than the number of distinct ids, and findings whose
  ids are all outside the seven known ones give the empty list.
\<close>

theorem recommendations_by_kind:
  assumes "generate_recommendations issues = Inr recs"
  shows "recs = map snd (filter (\<lambda>(ident, advice). JStr ident \<in> id_of ` set issues)
                    recommendation_catalog) \<and>
         distinct recs \<and>
         length recs \<le> card (id_of ` set issues) \<and>
         ((\<forall>i \<in> set issues. id_of i \<notin> JStr ` fst ` set recommendation_catalog) \<longrightarrow> recs = [])"
proof -
  let ?P = "\<lambda>(ident, advice). JStr ident \<in> id_of ` set issues"
  note r = generate_recommendations_Inr(1) [OF assms]
  have d: "distinct recs"
    unfolding r using catalog_distinct(2) by (rule distinct_map_filter)
  have l: "length recs \<le> card (id_of ` set issues)"
    unfolding r using filter_catalog_length [OF catalog_distinct(1), of "id_of ` set issues"]
    by simp
  have u: "recs = []" if "\<forall>i \<in> set issues. id_of i \<notin> JStr ` fst ` set recommendation_catalog"
  proof -
    from that have "filter ?P recommendation_catalog = []"
      by (force simp: filter_empty_conv)
    then show ?thesis unfolding r by simp
  qed
  from r d l u show ?thesis by blast
qed

theorem recommendations_by_kind_witness:
  "generate_recommendations issues_hundred_sql = Inr [rec_sql_injection, rec_server_disclosure] \<and>
   [rec_sql_injection, rec_server_disclosure] =
     map snd (filter (\<lambda>(ident, advice). JStr ident \<in> id_of ` set issues_hundred_sql)
                recommendation_catalog) \<and>
   distinct [rec_sql_injection, rec_server_disclosure]"
proof -
  have a: "generate_recommendations issues_hundred_sql =
      Inr [rec_sql_injection, rec_server_disclosure]"
    by code_simp
  from recommendations_by_kind [OF a] a show ?thesis
    by blast
qed

section \<open>The loop over the records\<close>

lemma process_result_Inr:
  assumes "process_result st result = Inr st'"
  shows "st' = (fst st @ record_findings result, insert (py_key (url_of result)) (snd st))"
    and "hashable (url_of result)"
    and "\<exists>kvs. result = JObj kvs"
    and "\<exists>xs. py_bind (py_get result ''issues'' (JList [])) py_iter = Inr xs"
    and "\<And>c. py_subscript result ''content'' = Inr c \<Longrightarrow>
           analyze_content (url_of result) c = Inr (content_findings result)"
    and "\<And>h. py_subscript result ''headers'' = Inr h \<Longrightarrow>
           analyze_headers (url_of result) h = Inr (header_findings result)"
proof -
  from assms obtain url where u: "py_get result ''url'' (JStr []) = Inr url"
    by (auto simp: process_result_def py_bind_eq_Inr)
  then obtain kvs where kvs: "result = JObj kvs"
    by (cases result) auto
  have uo: "url_of result = url" using u by (simp add: url_of_def)
  from assms u have h: "hashable url"
    by (auto simp: process_result_def split: if_splits)
  from assms u h obtain items cs hs where
    i: "py_bind (py_get result ''issues'' (JList [])) py_iter = Inr items" and
    c: "(if ''content'' \<in> fst ` set kvs
         then py_bind (py_subscript result ''content'') (analyze_content url)
         else Inr []) = Inr cs" and
    hd: "(if ''headers'' \<in> fst ` set kvs
         then py_bind (py_subscript result ''headers'') (analyze_headers url)
         else Inr []) = Inr hs" and
    s: "st' = (fst st @ items @ cs @ hs, insert (py_key url) (snd st))"
    unfolding process_result_def kvs
    by (auto simp: py_bind_eq_Inr)
  have pi: "passed_issues result = items"
    using i by (simp add: passed_issues_def or_empty_def)
  note uo' = uo [unfolded kvs]
  have cf: "content_findings result = cs"
    using c by (auto simp: content_findings_def or_empty_def uo' kvs split: if_splits)
  have hf: "header_findings result = hs"
    using hd by (auto simp: header_findings_def or_empty_def uo' kvs split: if_splits)
  show "st' = (fst st @ record_findings result, insert (py_key (url_of result)) (snd st))"
    using s by (simp add: record_findings_def pi cf hf uo)
  show "hashable (url_of result)" using h uo by simp
  show "\<exists>kvs. result = JObj kvs" using kvs by blast
  show "\<exists>xs. py_bind (py_get result ''issues'' (JList [])) py_iter = Inr xs"
    using i by blast
  show "analyze_content (url_of result) c' = Inr (content_findings result)"
    if "py_subscript result ''content'' = Inr c'" for c'
  proof -
    from that have "map_of kvs ''content'' \<noteq> None"
      unfolding kvs by (simp split: option.splits)
    then have "''content'' \<in> fst ` set kvs"
      by (simp add: map_of_eq_None_iff)
    with c that show ?thesis by (simp add: cf uo)
  qed
  show "analyze_headers (url_of result) h' = Inr (header_findings result)"
    if "py_subscript result ''headers'' = Inr h'" for h'
  proof -
    from that have "map_of kvs ''headers'' \<noteq> None"
      unfolding kvs by (simp split: option.splits)
    then have "''headers'' \<in> fst ` set kvs"
      by (simp add: map_of_eq_None_iff)
    with hd that show ?thesis by (simp add: hf uo)
  qed
qed

lemma process_results_Inr:
  "process_results results st = Inr st' \<Longrightarrow>
     st' = (fst st @ concat (map record_findings results),
            (\<lambda>r. py_key (url_of r)) ` set results \<union> snd st) \<and>
     (\<forall>r \<in> set results. \<exists>st0 st1. process_result st0 r = Inr st1)"
proof (induction results arbitrary: st)
  case Nil
  then show ?case by simp
next
  case (Cons r results)
  from Cons.prems obtain st1 where
    a: "process_result st r = Inr st1" and b: "process_results results st1 = Inr st'"
    by (auto simp: py_bind_eq_Inr)
  from a have e: "\<exists>st0 st1. process_result st0 r = Inr st1"
    by blast
  from process_result_Inr(1) [OF a] Cons.IH [OF b] have
    "st' = (fst st @ concat (map record_findings (r # results)),
            (\<lambda>r. py_key (url_of r)) ` set (r # results) \<union> snd st)"
    and "\<forall>r \<in> set results. \<exists>st0 st1. process_result st0 r = Inr st1"
    by auto
  with e show ?case
    by simp
qed

text \<open>
  C8. Whenever the analysis of a list of records returns a report, \<open>enhanced_issues\<close> is
  the concatenation, over the records in submission order, of the record's pre-existing
  issues, then the content detector's findings, then the header detector's findings.
  Every record is a dictionary; its pre-existing issues are the items of its \<^verbatim>\<open>issues\<close>
  (for a list the list itself, unchanged and in its order; none without the key), its
  content findings are what \<open>analyze_content\<close> returned for its \<^verbatim>\<open>content\<close> (none without
  the key), and its header findings are what \<open>analyze_headers\<close> returned for its
  \<^verbatim>\<open>headers\<close> (none without the key).
\<close>

theorem enhanced_issues_order:
  assumes "analyze_scan_results (JList records) = Inr rep"
  shows "enhanced_issues rep =
           concat (map (\<lambda>r. passed_issues r @ content_findings r @ header_findings r) records) \<and>
         (\<forall>r \<in> set records. \<exists>kvs. r = JObj kvs \<and>
            (case map_of kvs ''issues'' of
               None \<Rightarrow> passed_issues r = []
             | Some v \<Rightarrow> py_iter v = Inr (passed_issues r) \<and>
                 (\<forall>xs. v = JList xs \<longrightarrow> passed_issues r = xs)) \<and>
            (case map_of kvs ''content'' of
               None \<Rightarrow> content_findings r = []
             | Some c \<Rightarrow> analyze_content (url_of r) c = Inr (content_findings r)) \<and>
            (case map_of kvs ''headers'' of
               None \<Rightarrow> header_findings r = []
             | Some h \<Rightarrow> analyze_headers (url_of r) h = Inr (header_findings r)))"
proof -
  from analyze_scan_results_Inr [OF assms] obtain issues urls where
    p: "process_results records ([], {}) = Inr (issues, urls)" and
    e: "enhanced_issues rep = issues"
    by auto
  from process_results_Inr [OF p] have
    i: "issues = concat (map record_findings records)" and
    ok: "\<forall>r \<in> set records. \<exists>st0 st1. process_result st0 r = Inr st1"
    by simp_all
  have one: "\<exists>kvs. r = JObj kvs \<and>
            (case map_of kvs ''issues'' of
               None \<Rightarrow> passed_issues r = []
             | Some v \<Rightarrow> py_iter v = Inr (passed_issues r) \<and>
                 (\<forall>xs. v = JList xs \<longrightarrow> passed_issues r = xs)) \<and>
            (case map_of kvs ''content'' of
               None \<Rightarrow> content_findings r = []
             | Some c \<Rightarrow> analyze_content (url_of r) c = Inr (content_findings r)) \<and>
            (case map_of kvs ''headers'' of
               None \<Rightarrow> header_findings r = []
             | Some h \<Rightarrow> analyze_headers (url_of r) h = Inr (header_findings r))"
    if "r \<in> set records" for r
  proof -
    from ok that obtain st0 st1 where a: "process_result st0 r = Inr st1" by blast
    from process_result_Inr(3) [OF a] obtain kvs where kvs: "r = JObj kvs" by blast
    from process_result_Inr(4) [OF a] obtain xs where
      xs: "py_bind (py_get r ''issues'' (JList [])) py_iter = Inr xs" by blast
    have pi: "passed_issues r = xs" using xs by (simp add: passed_issues_def or_empty_def)
    have 1: "(case map_of kvs ''issues'' of
               None \<Rightarrow> passed_issues r = []
             | Some v \<Rightarrow> py_iter v = Inr (passed_issues r) \<and>
                 (\<forall>xs. v = JList xs \<longrightarrow> passed_issues r = xs))"
    proof (cases "map_of kvs ''issues''")
      case None
      with xs have "xs = []" by (simp add: kvs)
      with None pi show ?thesis by simp
    next
      case (Some v)
      with xs have v: "py_iter v = Inr xs" by (simp add: kvs)
      then have "\<forall>ys. v = JList ys \<longrightarrow> xs = ys" by auto
      with Some v pi show ?thesis by simp
    qed
    have 2: "(case map_of kvs ''content'' of
               None \<Rightarrow> content_findings r = []
             | Some c \<Rightarrow> analyze_content (url_of r) c = Inr (content_findings r))"
    proof (cases "map_of kvs ''content''")
      case None
      then have "''content'' \<notin> fst ` set kvs" by (simp add: map_of_eq_None_iff)
      then show ?thesis using None by (simp add: content_findings_def or_empty_def kvs)
    next
      case (Some c)
      then have "py_subscript r ''content'' = Inr c" by (simp add: kvs)
      from process_result_Inr(5) [OF a this] Some show ?thesis by simp
    qed
    have 3: "(case map_of kvs ''headers'' of
               None \<Rightarrow> header_findings r = []
             | Some h \<Rightarrow> analyze_headers (url_of r) h = Inr (header_findings r))"
    proof (cases "map_of kvs ''headers''")
      case None
      then have "''headers'' \<notin> fst ` set kvs" by (simp add: map_of_eq_None_iff)
      then show ?thesis using None by (simp add: header_findings_def or_empty_def kvs)
    next
      case (Some h)
      then have "py_subscript r ''headers'' = Inr h" by (simp add: kvs)
      from process_result_Inr(6) [OF a this] Some show ?thesis by simp
    qed
    show ?thesis
      by (intro exI [of _ kvs] conjI kvs 1 2 3)
  qed
  have first: "enhanced_issues rep =
      concat (map (\<lambda>r. passed_issues r @ content_findings r @ header_findings r) records)"
    unfolding e i by (simp add: record_findings_def [abs_def])
  show ?thesis
    by (intro conjI ballI first one)
qed

theorem enhanced_issues_order_witness:
  "analyze_scan_results (JList records_two) = Inr report_two \<and>
   enhanced_issues report_two =
     concat (map (\<lambda>r. passed_issues r @ content_findings r @ header_findings r) records_two)"
proof -
  have a: "analyze_scan_results (JList records_two) = Inr report_two"
    by code_simp
  have b: "enhanced_issues report_two =
     concat (map (\<lambda>r. passed_issues r @ content_findings r @ header_findings r) records_two)"
    using enhanced_issues_order [OF a] by (rule conjunct1)
  show ?thesis
    by (intro conjI a b)
qed

text \<open>
  C9. Whenever the analysis of a list of records returns a report and the url of every
  record is a string (the url of a record without the key being the empty string),
  \<open>urls_analyzed\<close> is the number of distinct urls among the records: the empty string is
  one value like any other, and a url shared by several records counts once.
\<close>

theorem urls_analyzed_distinct:
  assumes "analyze_scan_results (JList records) = Inr rep"
    and "\<forall>r \<in> set records. \<exists>s. url_of r = JStr s"
  shows "urls_analyzed rep = int (card (url_of ` set records)) \<and>
         (\<forall>r \<in> set records. \<exists>kvs. r = JObj kvs \<and>
            url_of r = (case map_of kvs ''url'' of None \<Rightarrow> JStr [] | Some u \<Rightarrow> u))"
proof -
  have shape: "\<exists>kvs. r = JObj kvs \<and>
      url_of r = (case map_of kvs ''url'' of None \<Rightarrow> JStr [] | Some u \<Rightarrow> u)"
    if "r \<in> set records" for r
  proof -
    from assms(2) that obtain s where "url_of r = JStr s" by blast
    then show ?thesis
      by (cases r) (simp_all add: url_of_def)
  qed
  from analyze_scan_results_Inr [OF assms(1)] obtain issues urls where
    p: "process_results records ([], {}) = Inr (issues, urls)" and
    u: "urls_analyzed rep = int (card urls)"
    by auto
  from process_results_Inr [OF p] have "urls = (\<lambda>r. py_key (url_of r)) ` set records"
    by simp
  also have "\<dots> = url_of ` set records"
    using assms(2) by (intro image_cong) auto
  finally have "urls_analyzed rep = int (card (url_of ` set records))"
    using u by simp
  with shape show ?thesis by blast
qed

theorem urls_analyzed_distinct_witness:
  "analyze_scan_results (JList records_urls) = Inr report_urls \<and>
   urls_analyzed report_urls = int (card (url_of ` set records_urls)) \<and>
   urls_analyzed report_urls = 2"
proof -
  have a: "analyze_scan_results (JList records_urls) = Inr report_urls"
    by code_simp
  have b: "\<forall>r \<in> set records_urls. \<exists>s. url_of r = JStr s"
    by (simp add: records_urls_def url_of_def)
  have c: "urls_analyzed report_urls = 2"
    by (simp add: report_urls_def)
  have d: "urls_analyzed report_urls = int (card (url_of ` set records_urls))"
    using urls_analyzed_distinct [OF a b] by (rule conjunct1)
  show ?thesis
    by (intro conjI a c d)
qed

section \<open>Pass-through issues without an id or without a severity\<close>

lemma missing_id_fails:
  assumes "JObj kvs \<in> set records"
    and "map_of kvs ''issues'' = Some (JList issues)"
    and "JObj ikvs \<in> set issues"
    and "map_of ikvs ''id'' = None"
  shows "\<exists>e. analyze_scan_results (JList records) = Inl e"
proof (cases "analyze_scan_results (JList records)")
  case (Inl e)
  then show ?thesis by blast
next
  case (Inr rep)
  from analyze_scan_results_Inr [OF Inr] obtain all_issues urls where
    p: "process_results records ([], {}) = Inr (all_issues, urls)" and
    g: "generate_recommendations all_issues = Inr (recommendations rep)"
    by auto
  from process_results_Inr [OF p] have
    i: "all_issues = concat (map record_findings records)"
    by simp
  have "passed_issues (JObj kvs) = issues"
    using assms(2) by (simp add: passed_issues_def or_empty_def)
  with assms(3) have "JObj ikvs \<in> set (record_findings (JObj kvs))"
    by (simp add: record_findings_def)
  with assms(1) have "JObj ikvs \<in> set all_issues"
    unfolding i by auto
  with generate_recommendations_Inr(2) [OF g]
  have "py_subscript (JObj ikvs) ''id'' = Inr (id_of (JObj ikvs))"
    by blast
  with assms(4) show ?thesis by simp
qed

lemma single_issue_loop:
  "process_results [JObj [(''url'', JStr u), (''issues'', JList [issue])]] ([], {}) =
     Inr ([issue], {JStr u})"
  by (simp add: process_result_def)

lemma single_issue_missing_id:
  assumes "map_of ikvs ''id'' = None"
  shows "analyze_scan_results
           (JList [JObj [(''url'', JStr u), (''issues'', JList [JObj ikvs])]]) = Inl KeyError"
  using assms
  unfolding analyze_scan_results_def py_iter.simps py_bind_Inr single_issue_loop
  by (simp add: generate_recommendations_def)

lemma single_issue_missing_severity:
  assumes "map_of ikvs ''id'' = Some v" and "hashable v" and "map_of ikvs ''severity'' = None"
  shows "\<exists>rep. analyze_scan_results
           (JList [JObj [(''url'', JStr u), (''issues'', JList [JObj ikvs])]]) = Inr rep \<and>
         enhanced_issues rep = [JObj ikvs] \<and>
         severity_counts rep = [(''critical'', 0), (''high'', 0), (''medium'', 0), (''low'', 1)] \<and>
         risk_score rep = 1 \<and> risk_level rep = ''low'' \<and> urls_analyzed rep = 1"
proof -
  from assms(1,2) obtain recs where g: "generate_recommendations [JObj ikvs] = Inr recs"
    by (simp add: generate_recommendations_def Let_def)
  have c: "count_severities [JObj ikvs] initial_counts =
      Inr [(''critical'', 0), (''high'', 0), (''medium'', 0), (''low'', 1)]"
    using assms(3) by (simp add: initial_counts_def in_counts_def increment_def)
  have s: "compute_risk_score [(''critical'', 0), (''high'', 0), (''medium'', 0), (''low'', 1)] = Inr 1"
    by (simp add: compute_risk_score_def count_of_def)
  show ?thesis
    unfolding analyze_scan_results_def py_iter.simps py_bind_Inr single_issue_loop
      fst_conv snd_conv g c s
    by (simp add: compute_risk_level_def)
qed

text \<open>
  C10. A batch (a list of records) in which the \<^verbatim>\<open>issues\<close> list of some record holds an
  issue object without the \<^verbatim>\<open>id\<close> field is never analysed into a report: the analysis
  ends in an error. For a batch of one record with one such issue the error is the
  \<^verbatim>\<open>KeyError\<close> of \<^verbatim>\<open>issue['id']\<close>. The same batch with an issue object that has a
  (hashable) \<^verbatim>\<open>id\<close> and no \<^verbatim>\<open>severity\<close> field is analysed into a full report, in
  which the issue is passed through and counted as low.
\<close>

theorem id_mandatory_severity_optional:
  "(\<forall>records kvs issues ikvs.
      JObj kvs \<in> set records \<and> map_of kvs ''issues'' = Some (JList issues) \<and>
      JObj ikvs \<in> set issues \<and> map_of ikvs ''id'' = None \<longrightarrow>
      (\<exists>e. analyze_scan_results (JList records) = Inl e)) \<and>
   (\<forall>u ikvs.
      map_of ikvs ''id'' = None \<longrightarrow>
      analyze_scan_results
        (JList [JObj [(''url'', JStr u), (''issues'', JList [JObj ikvs])]]) = Inl KeyError) \<and>
   (\<forall>u ikvs v.
      map_of ikvs ''id'' = Some v \<and> hashable v \<and> map_of ikvs ''severity'' = None \<longrightarrow>
      (\<exists>rep. analyze_scan_results
           (JList [JObj [(''url'', JStr u), (''issues'', JList [JObj ikvs])]]) = Inr rep \<and>
         enhanced_issues rep = [JObj ikvs] \<and>
         severity_counts rep = [(''critical'', 0), (''high'', 0), (''medium'', 0), (''low'', 1)] \<and>
         risk_score rep = 1 \<and> risk_level rep = ''low'' \<and> urls_analyzed rep = 1))"
proof (intro conjI allI impI)
  fix records kvs issues ikvs
  assume "JObj kvs \<in> set records \<and> map_of kvs ''issues'' = Some (JList issues) \<and>
      JObj ikvs \<in> set issues \<and> map_of ikvs ''id'' = None"
  then show "\<exists>e. analyze_scan_results (JList records) = Inl e"
    using missing_id_fails [of kvs records issues ikvs] by simp
next
  fix u and ikvs :: "(string \<times> json) list"
  assume "map_of ikvs ''id'' = None"
  then show "analyze_scan_results
        (JList [JObj [(''url'', JStr u), (''issues'', JList [JObj ikvs])]]) = Inl KeyError"
    by (rule single_issue_missing_id)
next
  fix u and ikvs :: "(string \<times> json) list" and v
  assume "map_of ikvs ''id'' = Some v \<and> hashable v \<and> map_of ikvs ''severity'' = None"
  then show "\<exists>rep. analyze_scan_results
           (JList [JObj [(''url'', JStr u), (''issues'', JList [JObj ikvs])]]) = Inr rep \<and>
         enhanced_issues rep = [JObj ikvs] \<and>
         severity_counts rep = [(''critical'', 0), (''high'', 0), (''medium'', 0), (''low'', 1)] \<and>
         risk_score rep = 1 \<and> risk_level rep = ''low'' \<and> urls_analyzed rep = 1"
    using single_issue_missing_severity [of ikvs v u] by simp
qed

theorem id_mandatory_severity_optional_witness:
  "analyze_scan_results
     (JList [JObj [(''url'', JStr ''a''),
                   (''issues'', JList [JObj [(''severity'', JStr ''high'')]])]]) = Inl KeyError \<and>
   (\<exists>rep. analyze_scan_results
        (JList [JObj [(''url'', JStr ''a''),
                      (''issues'', JList [JObj [(''id'', JStr ''x'')]])]]) = Inr rep \<and>
      enhanced_issues rep = [JObj [(''id'', JStr ''x'')]] \<and>
      severity_counts rep = [(''critical'', 0), (''high'', 0), (''medium'', 0), (''low'', 1)] \<and>
      risk_score rep = 1 \<and> risk_level rep = ''low'' \<and> urls_analyzed rep = 1)"
proof -
  note t = id_mandatory_severity_optional
  have a: "map_of [(''severity'', JStr ''high'')] ''id'' = None"
    by simp
  have b: "map_of [(''id'', JStr ''x'')] ''id'' = Some (JStr ''x'') \<and> hashable (JStr ''x'') \<and>
      map_of [(''id'', JStr ''x'')] ''severity'' = None"
    by simp
  from t [THEN conjunct2, THEN conjunct1, rule_format, OF a, of "''a''"]
    t [THEN conjunct2, THEN conjunct2, rule_format, OF b, of "''a''"]
  show ?thesis
    by (rule conjI)
qed

section \<open>The header detector on string-valued headers\<close>

lemma contains_key: "(k \<in> fst ` set kvs) = (map_of kvs k \<noteq> None)"
  by (simp add: map_of_eq_None_iff)

lemma cookie_test_value:
  assumes "\<And>v. map_of kvs ''set-cookie'' = Some v \<Longrightarrow> \<exists>s. v = JStr s"
  shows "cookie_test (JObj kvs) =
         Inr (case map_of kvs ''set-cookie'' of
                Some (JStr c) \<Rightarrow>
                  \<not> contains_str ''secure'' (map lower_char c) \<or>
                  \<not> contains_str ''httponly'' (map lower_char c)
              | _ \<Rightarrow> False)"
proof (cases "map_of kvs ''set-cookie''")
  case None
  then show ?thesis
    by (simp add: cookie_test_def contains_key)
next
  case (Some v)
  with assms obtain s where "v = JStr s" by blast
  with Some show ?thesis
    by (simp add: cookie_test_def contains_key cookie_lacks_def)
qed

lemma server_test_value:
  assumes "\<And>v. map_of kvs ''server'' = Some v \<Longrightarrow> \<exists>s. v = JStr s"
  shows "server_test (JObj kvs) =
         Inr (case map_of kvs ''server'' of Some (JStr s) \<Rightarrow> s \<noteq> [] | _ \<Rightarrow> False)"
proof (cases "map_of kvs ''server''")
  case None
  then show ?thesis
    by (simp add: server_test_def contains_key)
next
  case (Some v)
  with assms obtain s where "v = JStr s" by blast
  with Some show ?thesis
    by (simp add: server_test_def contains_key)
qed

lemma analyze_headers_strings:
  assumes "\<And>k v. map_of kvs k = Some v \<Longrightarrow> \<exists>s. v = JStr s"
  shows "analyze_headers url (JObj kvs) =
     Inr ((case map_of kvs ''set-cookie'' of
             Some (JStr c) \<Rightarrow>
               if \<not> contains_str ''secure'' (map lower_char c) \<or>
                  \<not> contains_str ''httponly'' (map lower_char c)
               then [cookie_issue url (JStr c)] else []
           | _ \<Rightarrow> []) @
          (case map_of kvs ''server'' of
             Some (JStr s) \<Rightarrow> if s \<noteq> [] then [server_issue url (JStr s)] else []
           | _ \<Rightarrow> []))"
proof -
  have c: "map_of kvs ''set-cookie'' = None \<or> (\<exists>s. map_of kvs ''set-cookie'' = Some (JStr s))"
    using assms [of "''set-cookie''"] by (cases "map_of kvs ''set-cookie''") auto
  have s: "map_of kvs ''server'' = None \<or> (\<exists>s. map_of kvs ''server'' = Some (JStr s))"
    using assms [of "''server''"] by (cases "map_of kvs ''server''") auto
  note ct = cookie_test_value [of kvs, OF assms]
  note st = server_test_value [of kvs, OF assms]
  from c s show ?thesis
    by (elim disjE exE) (simp_all add: analyze_headers_def ct st)
qed

text \<open>
  What the header detector computes. For a header mapping whose values are strings it
  returns, without error, at most two findings in this order: a high-severity
  \<^verbatim>\<open>deep_insecure_cookie\<close> finding whose context is the raw \<^verbatim>\<open>set-cookie\<close> value, exactly
  when that header is present and its value in lower case does not contain the text
  \<^verbatim>\<open>secure\<close> or does not contain the text \<^verbatim>\<open>httponly\<close> anywhere in it; and a
  medium-severity \<^verbatim>\<open>deep_server_disclosure\<close> finding whose context is the \<^verbatim>\<open>server\<close>
  value, exactly when that header is present and not empty. Neither finding has a
  \<^verbatim>\<open>position\<close> field, and an absent header gives no finding.
\<close>

theorem header_findings_by_substring:
  assumes "\<forall>(k, v) \<in> set kvs. \<exists>s. v = JStr s"
  shows "\<exists>findings.
     analyze_headers url (JObj kvs) = Inr findings \<and>
     findings =
       (case map_of kvs ''set-cookie'' of
          Some (JStr c) \<Rightarrow>
            if \<not> contains_str ''secure'' (map lower_char c) \<or>
               \<not> contains_str ''httponly'' (map lower_char c)
            then [JObj [(''id'', JStr ''deep_insecure_cookie''),
                        (''severity'', JStr ''high''),
                        (''details'', JStr ''Cookies set without Secure or HttpOnly flags''),
                        (''context'', JStr c),
                        (''url'', url)]]
            else []
        | _ \<Rightarrow> []) @
       (case map_of kvs ''server'' of
          Some (JStr s) \<Rightarrow>
            if s \<noteq> []
            then [JObj [(''id'', JStr ''deep_server_disclosure''),
                        (''severity'', JStr ''medium''),
                        (''details'', JStr ''Server header reveals software information''),
                        (''context'', JStr s),
                        (''url'', url)]]
            else []
        | _ \<Rightarrow> []) \<and>
     (\<forall>f \<in> set findings. py_contains ''position'' f = Inr False)"
proof -
  have str: "\<exists>s. v = JStr s" if "map_of kvs k = Some v" for k v
    using assms map_of_SomeD [OF that] by blast
  note a = analyze_headers_strings [where url = url and kvs = kvs, OF str]
  have c: "map_of kvs ''set-cookie'' = None \<or> (\<exists>s. map_of kvs ''set-cookie'' = Some (JStr s))"
    using str [of "''set-cookie''"] by (cases "map_of kvs ''set-cookie''") auto
  have s: "map_of kvs ''server'' = None \<or> (\<exists>s. map_of kvs ''server'' = Some (JStr s))"
    using str [of "''server''"] by (cases "map_of kvs ''server''") auto
  from c s show ?thesis
    by (elim disjE exE) (simp_all add: a cookie_issue_def server_issue_def)
qed

theorem header_findings_by_substring_witness:
  "analyze_headers (JStr ''u'')
     (JObj [(''set-cookie'', JStr ''session=abc''), (''server'', JStr ''nginx'')]) =
   Inr [JObj [(''id'', JStr ''deep_insecure_cookie''),
              (''severity'', JStr ''high''),
              (''details'', JStr ''Cookies set without Secure or HttpOnly flags''),
              (''context'', JStr ''session=abc''),
              (''url'', JStr ''u'')],
        JObj [(''id'', JStr ''deep_server_disclosure''),
              (''severity'', JStr ''medium''),
              (''details'', JStr ''Server header reveals software information''),
              (''context'', JStr ''nginx''),
              (''url'', JStr ''u'')]]"
proof -
  have h: "\<forall>(k, v) \<in> set [(''set-cookie'', JStr ''session=abc''), (''server'', JStr ''nginx'')].
      \<exists>s. v = JStr s"
    by simp
  have c: "\<not> contains_str ''secure'' (map lower_char ''session=abc'')"
    by code_simp
  from header_findings_by_substring [where url = "JStr ''u''", OF h] c show ?thesis
    by auto
qed

text \<open>
  C6. The detector is to report a \<^verbatim>\<open>deep_insecure_cookie\<close> finding when the \<^verbatim>\<open>set-cookie\<close>
  value lacks the \<^verbatim>\<open>secure\<close> attribute token or the \<^verbatim>\<open>httponly\<close> one, and the code says so
  itself: its comment is \<^verbatim>\<open>Check for insecure cookie settings\<close> and the finding reads
  \<^verbatim>\<open>Cookies set without Secure or HttpOnly flags\<close>. It looks for the two words as
  substrings of the whole value, though, so a cookie whose name or value happens to hold
  the word passes for one that carries the flag. In \<^verbatim>\<open>sid=insecure; HttpOnly\<close> and in
  \<^verbatim>\<open>__Secure-ID=1; HttpOnly\<close> no attribute token is \<^verbatim>\<open>secure\<close>, the cookie is set without
  the flag, and the detector reports nothing; the same cookies without the misleading word,
  \<^verbatim>\<open>sid=abc; HttpOnly\<close>, are reported.
\<close>

theorem header_cookie_secure_missed:
  "analyze_headers (JStr ''u'') (JObj [(''set-cookie'', JStr ''sid=insecure; HttpOnly'')]) = Inr [] \<and>
   \<not> spec_has_cookie_token ''secure'' ''sid=insecure; HttpOnly'' \<and>
   spec_has_cookie_token ''httponly'' ''sid=insecure; HttpOnly'' \<and>
   analyze_headers (JStr ''u'') (JObj [(''set-cookie'', JStr ''__Secure-ID=1; HttpOnly'')]) = Inr [] \<and>
   \<not> spec_has_cookie_token ''secure'' ''__Secure-ID=1; HttpOnly'' \<and>
   \<not> spec_has_cookie_token ''secure'' ''sid=abc; HttpOnly'' \<and>
   analyze_headers (JStr ''u'') (JObj [(''set-cookie'', JStr ''sid=abc; HttpOnly'')]) =
     Inr [JObj [(''id'', JStr ''deep_insecure_cookie''),
                (''severity'', JStr ''high''),
                (''details'', JStr ''Cookies set without Secure or HttpOnly flags''),
                (''context'', JStr ''sid=abc; HttpOnly''),
                (''url'', JStr ''u'')]]"
  by code_simp

section \<open>The matcher and the matches of a pattern\<close>

lemma advance_advance: "advance j (advance k cur) = advance (k + j) cur"
proof (induction k cur rule: advance.induct)
  case (2 n p)
  then show ?case by (cases j) simp_all
qed simp_all

lemma advance_length: "length (snd (advance k cur)) = length (snd cur) - k"
  by (induction k cur rule: advance.induct) simp_all

lemma advance_eq:
  "n \<le> length rest \<Longrightarrow>
     advance n (p, rest) = ((if n = 0 then p else Some (rest ! (n - 1))), drop n rest)"
proof (induction n "(p, rest)" arbitrary: p rest rule: advance.induct)
  case (1 p rest)
  then show ?case by simp
next
  case (2 n p)
  then show ?case by simp
next
  case (3 n p x xs)
  then show ?case by (cases n) simp_all
qed

lemma cursor_at_eq:
  "i \<le> length t \<Longrightarrow>
     cursor_at t i = ((if i = 0 then None else Some (t ! (i - 1))), drop i t)"
  unfolding cursor_at_def by (rule advance_eq)

lemma cursor_at_advance: "advance n (cursor_at t i) = cursor_at t (i + n)"
  unfolding cursor_at_def by (rule advance_advance)

lemma cursor_at_inj:
  assumes "cursor_at t j = cursor_at t j'" "j \<le> length t" "j' \<le> length t"
  shows "j = j'"
proof -
  from assms(1) have "length (snd (cursor_at t j)) = length (snd (cursor_at t j'))" by simp
  then have "length t - j = length t - j'" by (simp add: cursor_at_def advance_length)
  with assms(2,3) show ?thesis by simp
qed

lemma at_boundary_cursor_at:
  assumes "i \<le> length t"
  shows "at_boundary db (cursor_at t i) = boundary_at db t i"
proof -
  have r: "(case drop i t of [] \<Rightarrow> False | c # _ \<Rightarrow> word_char db c) =
      (i < length t \<and> word_char db (t ! i))"
  proof (cases "i < length t")
    case True
    then have "drop i t = t ! i # drop (Suc i) t" by (simp add: Cons_nth_drop_Suc)
    with True show ?thesis by simp
  next
    case False
    then show ?thesis by simp
  qed
  have p: "(case (if i = 0 then None else Some (t ! (i - 1))) of
        None \<Rightarrow> False | Some c \<Rightarrow> word_char db c) = (0 < i \<and> word_char db (t ! (i - 1)))"
    by simp
  show ?thesis
    unfolding cursor_at_eq [OF assms] at_boundary.simps boundary_at_def r p ..
qed

lemma lit_ends_set:
  "set (lit_ends db w (p, rest)) =
     (if length w \<le> length rest \<and> list_all2 (lit_match db) w (take (length w) rest)
      then {advance (length w) (p, rest)} else {})"
proof (induction db w "(p, rest)" arbitrary: p rest rule: lit_ends.induct)
  case (1 db cur)
  then show ?case by simp
next
  case (2 db c cs p)
  then show ?case by simp
next
  case (3 db c cs p x xs)
  then show ?case by simp
qed

lemma cls_ends_set:
  "set (cls_ends db k (p, rest)) =
     (if 1 \<le> length rest \<and> in_class db k (rest ! 0) then {advance 1 (p, rest)} else {})"
  by (cases rest) simp_all

lemma star_ends_set:
  "set (star_ends db k (p, rest)) =
     {advance n (p, rest) | n. n \<le> length rest \<and> list_all (in_class db k) (take n rest)}"
proof (induction db k "(p, rest)" arbitrary: p rest rule: star_ends.induct)
  case (1 db k p)
  then show ?case by auto
next
  case (2 db k p x xs)
  show ?case
  proof (cases "in_class db k x")
    case False
    have "{advance n (p, x # xs) | n. n \<le> length (x # xs) \<and>
          list_all (in_class db k) (take n (x # xs))} = {(p, x # xs)}"
    proof (intro set_eqI iffI)
      fix c assume "c \<in> {advance n (p, x # xs) | n. n \<le> length (x # xs) \<and>
          list_all (in_class db k) (take n (x # xs))}"
      then obtain n where n: "c = advance n (p, x # xs)"
          "list_all (in_class db k) (take n (x # xs))" by blast
      with False have "n = 0" by (cases n) simp_all
      with n show "c \<in> {(p, x # xs)}" by simp
    next
      fix c assume "c \<in> {(p, x # xs)}"
      then have "c = advance 0 (p, x # xs)" by simp
      then show "c \<in> {advance n (p, x # xs) | n. n \<le> length (x # xs) \<and>
          list_all (in_class db k) (take n (x # xs))}"
        by (intro CollectI exI [of _ 0]) simp
    qed
    with False show ?thesis by simp
  next
    case True
    note ih = "2.hyps" [OF True]
    have "{advance n (p, x # xs) | n. n \<le> length (x # xs) \<and>
          list_all (in_class db k) (take n (x # xs))} =
        {advance n (Some x, xs) | n. n \<le> length xs \<and> list_all (in_class db k) (take n xs)}
        \<union> {(p, x # xs)}"
    proof (intro set_eqI iffI)
      fix c assume "c \<in> {advance n (p, x # xs) | n. n \<le> length (x # xs) \<and>
          list_all (in_class db k) (take n (x # xs))}"
      then obtain n where n: "c = advance n (p, x # xs)" "n \<le> length (x # xs)"
          "list_all (in_class db k) (take n (x # xs))" by blast
      show "c \<in> {advance n (Some x, xs) | n. n \<le> length xs \<and>
          list_all (in_class db k) (take n xs)} \<union> {(p, x # xs)}"
      proof (cases n)
        case 0
        with n show ?thesis by simp
      next
        case (Suc m)
        with n have "c = advance m (Some x, xs)" "m \<le> length xs"
          "list_all (in_class db k) (take m xs)" by simp_all
        then show ?thesis by blast
      qed
    next
      fix c assume "c \<in> {advance n (Some x, xs) | n. n \<le> length xs \<and>
          list_all (in_class db k) (take n xs)} \<union> {(p, x # xs)}"
      then consider n where "c = advance n (Some x, xs)" "n \<le> length xs"
          "list_all (in_class db k) (take n xs)" | "c = (p, x # xs)" by blast
      then show "c \<in> {advance n (p, x # xs) | n. n \<le> length (x # xs) \<and>
          list_all (in_class db k) (take n (x # xs))}"
      proof cases
        case 1
        with True show ?thesis
          by (intro CollectI exI [of _ "Suc n"]) simp
      next
        case 2
        then show ?thesis
          by (intro CollectI exI [of _ 0]) simp
      qed
    qed
    with True ih show ?thesis by simp
  qed
qed

lemma rx_lang_bounds: "rx_lang db r t i j \<Longrightarrow> i \<le> j \<and> j \<le> length t"
proof (induction r arbitrary: i j)
  case (Seq a b)
  then obtain m where "rx_lang db a t i m" "rx_lang db b t m j" by auto
  with Seq.IH(1) [of i m] Seq.IH(2) [of m j] show ?case by simp
qed auto

lemma cursor_at_rest: "i \<le> length t \<Longrightarrow> \<exists>p. cursor_at t i = (p, drop i t)"
  by (simp add: cursor_at_eq)

lemma between_length: "j \<le> length t \<Longrightarrow> length (between t i j) = j - i"
  by (simp add: between_def)

lemma lit_ends_lang:
  assumes "i \<le> length t"
  shows "(c \<in> set (lit_ends db w (cursor_at t i))) =
     (\<exists>j. rx_lang db (Str w) t i j \<and> c = cursor_at t j)"
proof -
  from cursor_at_rest [OF assms] obtain p where cur: "cursor_at t i = (p, drop i t)" ..
  have adv: "advance (length w) (p, drop i t) = cursor_at t (i + length w)"
    using cursor_at_advance [of "length w" t i] cur by simp
  show ?thesis
  proof
    assume "c \<in> set (lit_ends db w (cursor_at t i))"
    then have a: "length w \<le> length t - i"
        "list_all2 (lit_match db) w (take (length w) (drop i t))"
        "c = cursor_at t (i + length w)"
      unfolding cur lit_ends_set adv by (simp_all split: if_splits)
    from a(1) assms have "i + length w \<le> length t" by simp
    moreover from a(2) have "list_all2 (lit_match db) w (between t i (i + length w))"
      by (simp add: between_def)
    ultimately have "rx_lang db (Str w) t i (i + length w)" by simp
    with a(3) show "\<exists>j. rx_lang db (Str w) t i j \<and> c = cursor_at t j" by blast
  next
    assume "\<exists>j. rx_lang db (Str w) t i j \<and> c = cursor_at t j"
    then obtain j where j: "i \<le> j" "j \<le> length t"
        "list_all2 (lit_match db) w (between t i j)" "c = cursor_at t j" by auto
    from list_all2_lengthD [OF j(3)] between_length [OF j(2), of i]
    have len: "length w = j - i" by simp
    with j(1) have e: "j = i + length w" by simp
    from j(3) len have "list_all2 (lit_match db) w (take (length w) (drop i t))"
      by (simp add: between_def)
    moreover from e j(2) have "length w \<le> length t - i" by simp
    ultimately show "c \<in> set (lit_ends db w (cursor_at t i))"
      unfolding cur lit_ends_set adv using j(4) e by simp
  qed
qed

lemma cls_ends_lang:
  assumes "i \<le> length t"
  shows "(c \<in> set (cls_ends db k (cursor_at t i))) =
     (\<exists>j. rx_lang db (Cls k) t i j \<and> c = cursor_at t j)"
proof -
  from cursor_at_rest [OF assms] obtain p where cur: "cursor_at t i = (p, drop i t)" ..
  have adv: "advance 1 (p, drop i t) = cursor_at t (Suc i)"
    using cursor_at_advance [of 1 t i] cur by simp
  have nth: "drop i t ! 0 = t ! i" if "i < length t"
    using that by simp
  show ?thesis
  proof (cases "i < length t")
    case True
    with nth have "drop i t ! 0 = t ! i" by simp
    with True show ?thesis
      unfolding cur cls_ends_set adv by auto
  next
    case False
    then show ?thesis
      unfolding cur cls_ends_set adv by auto
  qed
qed

lemma star_ends_lang:
  assumes "i \<le> length t"
  shows "(c \<in> set (star_ends db k (cursor_at t i))) =
     (\<exists>j. rx_lang db (Star k) t i j \<and> c = cursor_at t j)"
proof -
  from cursor_at_rest [OF assms] obtain p where cur: "cursor_at t i = (p, drop i t)" ..
  have adv: "advance n (p, drop i t) = cursor_at t (i + n)" for n
    using cursor_at_advance [of n t i] cur by simp
  show ?thesis
  proof
    assume "c \<in> set (star_ends db k (cursor_at t i))"
    then obtain n where n: "c = cursor_at t (i + n)" "n \<le> length t - i"
        "list_all (in_class db k) (take n (drop i t))"
      unfolding cur star_ends_set adv by auto
    from n(2) assms have "i + n \<le> length t" by simp
    with n(3) have "rx_lang db (Star k) t i (i + n)" by (simp add: between_def)
    with n(1) show "\<exists>j. rx_lang db (Star k) t i j \<and> c = cursor_at t j" by blast
  next
    assume "\<exists>j. rx_lang db (Star k) t i j \<and> c = cursor_at t j"
    then obtain j where j: "i \<le> j" "j \<le> length t"
        "list_all (in_class db k) (between t i j)" "c = cursor_at t j" by auto
    from j(1) have e: "i + (j - i) = j" by simp
    from j have "j - i \<le> length t - i" by simp
    moreover from j(3) have "list_all (in_class db k) (take (j - i) (drop i t))"
      by (simp add: between_def)
    moreover from j(4) e have "c = cursor_at t (i + (j - i))" by simp
    ultimately show "c \<in> set (star_ends db k (cursor_at t i))"
      unfolding cur star_ends_set adv by (intro CollectI exI [of _ "j - i"]) simp
  qed
qed

lemma plus_ends_lang:
  assumes "i \<le> length t"
  shows "(c \<in> set (concat (map (star_ends db k) (cls_ends db k (cursor_at t i))))) =
     (\<exists>j. rx_lang db (Plus k) t i j \<and> c = cursor_at t j)"
proof
  assume "c \<in> set (concat (map (star_ends db k) (cls_ends db k (cursor_at t i))))"
  then obtain c1 where c1: "c1 \<in> set (cls_ends db k (cursor_at t i))"
      and c: "c \<in> set (star_ends db k c1)" by auto
  from c1 cls_ends_lang [OF assms, of c1 db k]
  have a: "Suc i \<le> length t" "in_class db k (t ! i)" "c1 = cursor_at t (Suc i)" by auto
  from c a(3) star_ends_lang [OF a(1), of c db k] obtain j where
    j: "Suc i \<le> j" "j \<le> length t" "list_all (in_class db k) (between t (Suc i) j)"
      "c = cursor_at t j" by auto
  from a(1) have d: "drop i t = t ! i # drop (Suc i) t" by (simp add: Cons_nth_drop_Suc)
  from j(1) have s: "j - i = Suc (j - Suc i)" by simp
  have "between t i j = t ! i # between t (Suc i) j"
    unfolding between_def d s by simp
  with a(2) j(3) have "list_all (in_class db k) (between t i j)" by simp
  with j have "rx_lang db (Plus k) t i j" by simp
  with j(4) show "\<exists>j. rx_lang db (Plus k) t i j \<and> c = cursor_at t j" by blast
next
  assume "\<exists>j. rx_lang db (Plus k) t i j \<and> c = cursor_at t j"
  then obtain j where j: "i < j" "j \<le> length t"
      "list_all (in_class db k) (between t i j)" "c = cursor_at t j" by auto
  from j have il: "Suc i \<le> length t" by simp
  then have d: "drop i t = t ! i # drop (Suc i) t" by (simp add: Cons_nth_drop_Suc)
  from j(1) have s: "j - i = Suc (j - Suc i)" by simp
  have b: "between t i j = t ! i # between t (Suc i) j"
    unfolding between_def d s by simp
  from j(3) b have x: "in_class db k (t ! i)"
      and r: "list_all (in_class db k) (between t (Suc i) j)" by simp_all
  from x il have "rx_lang db (Cls k) t i (Suc i)" by simp
  with cls_ends_lang [OF assms, of "cursor_at t (Suc i)" db k]
  have c1: "cursor_at t (Suc i) \<in> set (cls_ends db k (cursor_at t i))" by blast
  from j r have "rx_lang db (Star k) t (Suc i) j" by simp
  with star_ends_lang [OF il, of c db k] j(4)
  have "c \<in> set (star_ends db k (cursor_at t (Suc i)))" by blast
  with c1 show "c \<in> set (concat (map (star_ends db k) (cls_ends db k (cursor_at t i))))"
    by auto
qed

lemma rx_ends_lang:
  "i \<le> length t \<Longrightarrow>
     (c \<in> set (rx_ends db r (cursor_at t i))) = (\<exists>j. rx_lang db r t i j \<and> c = cursor_at t j)"
proof (induction r arbitrary: i c)
  case (Str w)
  then show ?case by (simp only: rx_ends.simps lit_ends_lang)
next
  case (Cls k)
  then show ?case by (simp only: rx_ends.simps cls_ends_lang)
next
  case (Star k)
  then show ?case by (simp only: rx_ends.simps star_ends_lang)
next
  case (Plus k)
  then show ?case by (simp only: rx_ends.simps plus_ends_lang)
next
  case (Opt r)
  from Opt.IH [OF Opt.prems] Opt.prems show ?case by auto
next
  case WordB
  then show ?case by (auto simp: at_boundary_cursor_at)
next
  case (Seq a b)
  show ?case
  proof
    assume "c \<in> set (rx_ends db (Seq a b) (cursor_at t i))"
    then obtain c1 where c1: "c1 \<in> set (rx_ends db a (cursor_at t i))"
        and c: "c \<in> set (rx_ends db b c1)" by auto
    from c1 Seq.IH(1) [OF Seq.prems, of c1] obtain m where
      m: "rx_lang db a t i m" "c1 = cursor_at t m" by blast
    from rx_lang_bounds [OF m(1)] have mb: "i \<le> m" "m \<le> length t" by simp_all
    from c m(2) Seq.IH(2) [OF mb(2), of c] obtain j where
      j: "rx_lang db b t m j" "c = cursor_at t j" by blast
    from rx_lang_bounds [OF j(1)] mb have "m \<in> {i..j}" by simp
    with m(1) j(1) have "rx_lang db (Seq a b) t i j" by auto
    with j(2) show "\<exists>j. rx_lang db (Seq a b) t i j \<and> c = cursor_at t j" by blast
  next
    assume "\<exists>j. rx_lang db (Seq a b) t i j \<and> c = cursor_at t j"
    then obtain j m where j: "rx_lang db a t i m" "rx_lang db b t m j" "c = cursor_at t j"
      by auto
    from rx_lang_bounds [OF j(1)] have mb: "m \<le> length t" by simp
    from j(1) Seq.IH(1) [OF Seq.prems, of "cursor_at t m"]
    have c1: "cursor_at t m \<in> set (rx_ends db a (cursor_at t i))" by blast
    from j(2,3) Seq.IH(2) [OF mb, of c]
    have "c \<in> set (rx_ends db b (cursor_at t m))" by blast
    with c1 show "c \<in> set (rx_ends db (Seq a b) (cursor_at t i))" by auto
  qed
next
  case (Alt a b)
  from Alt.IH(1) [OF Alt.prems] Alt.IH(2) [OF Alt.prems] show ?case by auto
qed

lemma lit_ends_advance:
  "c \<in> set (lit_ends db w cur) \<Longrightarrow> c = advance (length w) cur \<and> length w \<le> length (snd cur)"
  by (induction db w cur rule: lit_ends.induct) (auto split: if_splits)

lemma cls_ends_advance:
  "c \<in> set (cls_ends db k cur) \<Longrightarrow> c = advance 1 cur \<and> 1 \<le> length (snd cur)"
  by (induction db k cur rule: cls_ends.induct) (auto split: if_splits)

lemma star_ends_advance:
  "c \<in> set (star_ends db k cur) \<Longrightarrow> \<exists>n \<le> length (snd cur). c = advance n cur"
proof (induction db k cur rule: star_ends.induct)
  case (1 db k p)
  then show ?case by (auto intro: exI [of _ 0])
next
  case (2 db k p x xs)
  show ?case
  proof (cases "c = (p, x # xs)")
    case True
    then show ?thesis by (auto intro: exI [of _ 0])
  next
    case False
    with 2 obtain n where "n \<le> length xs" "c = advance n (Some x, xs)"
      by (auto split: if_splits)
    then show ?thesis by (auto intro: exI [of _ "Suc n"])
  qed
qed

lemma rx_ends_advance:
  "c \<in> set (rx_ends db x cur) \<Longrightarrow>
     \<exists>n. min_len x \<le> n \<and> n \<le> length (snd cur) \<and> c = advance n cur"
proof (induction x arbitrary: cur c)
  case (Str w)
  then show ?case using lit_ends_advance [of c db w cur] by auto
next
  case (Cls k)
  then show ?case using cls_ends_advance [of c db k cur] by auto
next
  case (Star k)
  then show ?case using star_ends_advance [of c db k cur] by auto
next
  case (Plus k)
  then obtain c1 where c1: "c1 \<in> set (cls_ends db k cur)" and c: "c \<in> set (star_ends db k c1)"
    by auto
  from cls_ends_advance [OF c1] have a: "c1 = advance 1 cur" "1 \<le> length (snd cur)" by simp_all
  from star_ends_advance [OF c] obtain n where n: "n \<le> length (snd c1)" "c = advance n c1"
    by blast
  from a n have "c = advance (1 + n) cur" by (simp add: advance_advance)
  moreover from a n have "1 + n \<le> length (snd cur)" by (simp add: advance_length)
  ultimately show ?case by (intro exI [of _ "1 + n"]) simp
next
  case (Opt r)
  show ?case
  proof (cases "c = cur")
    case True
    then show ?thesis by (intro exI [of _ 0]) simp
  next
    case False
    with Opt.prems have "c \<in> set (rx_ends db r cur)" by simp
    from Opt.IH [OF this] show ?thesis by auto
  qed
next
  case WordB
  then show ?case by (intro exI [of _ 0]) (simp split: if_splits)
next
  case (Seq a b)
  then obtain c1 where c1: "c1 \<in> set (rx_ends db a cur)" and c: "c \<in> set (rx_ends db b c1)"
    by auto
  from Seq.IH(1) [OF c1] obtain n1 where
    n1: "min_len a \<le> n1" "n1 \<le> length (snd cur)" "c1 = advance n1 cur" by blast
  from Seq.IH(2) [OF c] obtain n2 where
    n2: "min_len b \<le> n2" "n2 \<le> length (snd c1)" "c = advance n2 c1" by blast
  from n1 n2 have "c = advance (n1 + n2) cur" by (simp add: advance_advance)
  moreover from n1 n2 have "n1 + n2 \<le> length (snd cur)" by (simp add: advance_length)
  moreover from n1 n2 have "min_len (Seq a b) \<le> n1 + n2" by simp
  ultimately show ?case by blast
next
  case (Alt a b)
  then have "c \<in> set (rx_ends db a cur) \<or> c \<in> set (rx_ends db b cur)" by simp
  then show ?case
  proof
    assume "c \<in> set (rx_ends db a cur)"
    from Alt.IH(1) [OF this] obtain n where
      "min_len a \<le> n" "n \<le> length (snd cur)" "c = advance n cur" by blast
    then show ?thesis by (intro exI [of _ n]) simp
  next
    assume "c \<in> set (rx_ends db b cur)"
    from Alt.IH(2) [OF this] obtain n where
      "min_len b \<le> n" "n \<le> length (snd cur)" "c = advance n cur" by blast
    then show ?thesis by (intro exI [of _ n]) simp
  qed
qed

lemma first_end_positive:
  assumes "0 < min_len r"
  shows "first_end adv (length rest) (rx_ends db r (p, rest)) =
     (case rx_ends db r (p, rest) of
        [] \<Rightarrow> None
      | c # cs \<Rightarrow> Some (length rest - length (snd c), c))"
proof (cases "rx_ends db r (p, rest)")
  case Nil
  then show ?thesis by simp
next
  case (Cons c cs)
  then have "c \<in> set (rx_ends db r (p, rest))" by simp
  from rx_ends_advance [OF this] obtain n where
    n: "min_len r \<le> n" "n \<le> length rest" "c = advance n (p, rest)" by auto
  with assms have "0 < n" by simp
  with n have "length (snd c) \<noteq> length rest"
    by (simp add: advance_length)
  then show ?thesis using Cons by (cases c) simp
qed

lemma first_end_Some_positive:
  assumes "0 < min_len r"
    and "first_end adv (length rest) (rx_ends db r (p, rest)) = Some (k, c)"
  shows "0 < k" "k \<le> length rest" "c = advance k (p, rest)"
    "c \<in> set (rx_ends db r (p, rest))"
proof -
  from assms(2) first_end_positive [OF assms(1), of adv rest db p] obtain cs where
    e: "rx_ends db r (p, rest) = c # cs" and k: "k = length rest - length (snd c)"
    by (auto split: list.splits)
  then have m: "c \<in> set (rx_ends db r (p, rest))" by simp
  from rx_ends_advance [OF m] obtain n where
    n0: "min_len r \<le> n" and n: "n \<le> length rest" "c = advance n (p, rest)" by auto
  from n0 assms(1) have pos: "0 < n" by simp
  from n have "k = n" using k by (simp add: advance_length)
  with n pos m show "0 < k" "k \<le> length rest" "c = advance k (p, rest)"
    "c \<in> set (rx_ends db r (p, rest))" by simp_all
qed

lemma spans_in_order_mono:
  "spans_in_order lo ms hi \<Longrightarrow> lo' \<le> lo \<Longrightarrow> spans_in_order lo' ms hi"
  by (cases ms) auto

lemma finditer_from_spans:
  "0 < min_len r \<Longrightarrow>
     spans_in_order pos (finditer_from db r adv pos cur) (pos + length (snd cur))"
proof (induction db r adv pos cur rule: finditer_from.induct)
  case (1 db r adv pos p rest)
  note positive = "1.prems"
  show ?case
  proof (cases "first_end adv (length rest) (rx_ends db r (p, rest))")
    case None
    show ?thesis
    proof (cases rest)
      case Nil
      with None show ?thesis by simp
    next
      case (Cons x xs)
      from "1.IH"(1) [OF None Cons positive]
      have "spans_in_order (pos + 1) (finditer_from db r False (pos + 1) (Some x, xs))
          (pos + 1 + length xs)" by simp
      then have "spans_in_order pos (finditer_from db r False (pos + 1) (Some x, xs))
          (pos + length rest)"
        using Cons by (auto intro: spans_in_order_mono)
      with None Cons show ?thesis by simp
    qed
  next
    case (Some kc)
    obtain k c where kc: "kc = (k, c)" by (cases kc)
    note f = first_end_Some_positive [OF positive Some [unfolded kc]]
    have e: "pos + k + length (snd c) = pos + length rest"
      using f by (simp add: advance_length)
    from "1.IH"(2) [OF Some kc [symmetric] positive]
    have "spans_in_order (pos + k) (finditer_from db r (k = 0) (pos + k) c)
        (pos + length rest)"
      unfolding e .
    with f(1) show ?thesis
      by (simp add: Some kc)
  qed
qed

lemma rx_ends_empty_first_end:
  assumes "0 < min_len r" "first_end adv (length rest) (rx_ends db r (p, rest)) = None"
  shows "rx_ends db r (p, rest) = []"
  using assms(2) first_end_positive [OF assms(1), of adv rest db p]
  by (simp split: list.splits)

lemma finditer_from_complete:
  "0 < min_len r \<Longrightarrow> j \<le> length (snd cur) \<Longrightarrow> rx_ends db r (advance j cur) \<noteq> [] \<Longrightarrow>
     \<exists>(s, e) \<in> set (finditer_from db r adv pos cur). s \<le> pos + j \<and> pos + j < e"
proof (induction db r adv pos cur arbitrary: j rule: finditer_from.induct)
  case (1 db r adv pos p rest)
  note positive = "1.prems"(1) and j = "1.prems"(2) and m = "1.prems"(3)
  show ?case
  proof (cases "first_end adv (length rest) (rx_ends db r (p, rest))")
    case None
    from rx_ends_empty_first_end [OF positive None] m have j0: "j \<noteq> 0"
      by (cases j) auto
    with j obtain x xs where rest: "rest = x # xs" by (cases rest) auto
    from j0 obtain j' where j': "j = Suc j'" by (cases j) auto
    from j j' rest have a: "j' \<le> length (snd (Some x, xs))" by simp
    from m j' rest have b: "rx_ends db r (advance j' (Some x, xs)) \<noteq> []" by simp
    from "1.IH"(1) [OF None rest positive a b]
    have "\<exists>(s, e) \<in> set (finditer_from db r False (pos + 1) (Some x, xs)).
        s \<le> pos + 1 + j' \<and> pos + 1 + j' < e" .
    then show ?thesis
      using None rest j' by simp
  next
    case (Some kc)
    obtain k c where kc: "kc = (k, c)" by (cases kc)
    note f = first_end_Some_positive [OF positive Some [unfolded kc]]
    show ?thesis
    proof (cases "j < k")
      case True
      then show ?thesis using Some kc by simp
    next
      case False
      then have jk: "j = k + (j - k)" by simp
      have a: "j - k \<le> length (snd c)"
        using f j by (simp add: advance_length)
      have "advance j (p, rest) = advance (j - k) c"
        using f(3) jk by (metis advance_advance)
      with m have b: "rx_ends db r (advance (j - k) c) \<noteq> []" by simp
      from "1.IH"(2) [OF Some kc [symmetric] positive a b]
      have "\<exists>(s, e) \<in> set (finditer_from db r (k = 0) (pos + k) c).
          s \<le> pos + k + (j - k) \<and> pos + k + (j - k) < e" .
      then show ?thesis
        using Some kc False by auto
    qed
  qed
qed

lemma finditer_from_sound:
  "0 < min_len r \<Longrightarrow> (s, e) \<in> set (finditer_from db r adv pos cur) \<Longrightarrow>
     pos \<le> s \<and> s < e \<and> e \<le> pos + length (snd cur) \<and>
     (\<exists>cs. rx_ends db r (advance (s - pos) cur) = advance (e - pos) cur # cs)"
proof (induction db r adv pos cur rule: finditer_from.induct)
  case (1 db r adv pos p rest)
  note positive = "1.prems"(1) and mem = "1.prems"(2)
  show ?case
  proof (cases "first_end adv (length rest) (rx_ends db r (p, rest))")
    case None
    with mem obtain x xs where rest: "rest = x # xs" by (cases rest) auto
    from mem None rest have "(s, e) \<in> set (finditer_from db r False (pos + 1) (Some x, xs))"
      by simp
    from "1.IH"(1) [OF None rest positive this] have
      ih: "pos + 1 \<le> s" "s < e" "e \<le> pos + 1 + length xs"
        "\<exists>cs. rx_ends db r (advance (s - (pos + 1)) (Some x, xs)) =
              advance (e - (pos + 1)) (Some x, xs) # cs"
      by simp_all
    from ih(1) have s: "s - pos = Suc (s - (pos + 1))" by simp
    from ih(1,2) have e: "e - pos = Suc (e - (pos + 1))" by simp
    from ih show ?thesis
      unfolding rest s e by simp
  next
    case (Some kc)
    obtain k c where kc: "kc = (k, c)" by (cases kc)
    note f = first_end_Some_positive [OF positive Some [unfolded kc]]
    from Some kc first_end_positive [OF positive, of adv rest db p] obtain cs where
      hd: "rx_ends db r (p, rest) = c # cs"
      by (auto split: list.splits)
    from mem Some kc have "(s, e) = (pos, pos + k) \<or>
        (s, e) \<in> set (finditer_from db r (k = 0) (pos + k) c)" by simp
    then show ?thesis
    proof
      assume "(s, e) = (pos, pos + k)"
      then show ?thesis using f hd by simp
    next
      assume "(s, e) \<in> set (finditer_from db r (k = 0) (pos + k) c)"
      from "1.IH"(2) [OF Some kc [symmetric] positive this] have
        ih: "pos + k \<le> s" "s < e" "e \<le> pos + k + length (snd c)"
          "\<exists>cs. rx_ends db r (advance (s - (pos + k)) c) = advance (e - (pos + k)) c # cs"
        by simp_all
      have l: "pos + k + length (snd c) = pos + length rest"
        using f by (simp add: advance_length)
      from ih(1) have "k + (s - (pos + k)) = s - pos" by simp
      then have s: "advance (s - (pos + k)) c = advance (s - pos) (p, rest)"
        by (simp add: f(3) advance_advance)
      from ih(1,2) have "k + (e - (pos + k)) = e - pos" by simp
      then have e: "advance (e - (pos + k)) c = advance (e - pos) (p, rest)"
        by (simp add: f(3) advance_advance)
      from ih l show ?thesis
        unfolding s e by simp
    qed
  qed
qed

lemma finditer_spans:
  "0 < min_len r \<Longrightarrow> spans_in_order 0 (finditer db r t) (length t)"
  using finditer_from_spans [of r 0 db False "(None, t)"] by (simp add: finditer_def)

lemma finditer_sound:
  assumes "0 < min_len r" "(s, e) \<in> set (finditer db r t)"
  shows "s < e" "e \<le> length t" "\<exists>cs. rx_ends db r (cursor_at t s) = cursor_at t e # cs"
    "rx_lang db r t s e"
proof -
  from assms(2) have "(s, e) \<in> set (finditer_from db r False 0 (None, t))"
    by (simp add: finditer_def)
  from finditer_from_sound [OF assms(1) this]
  show b: "s < e" "e \<le> length t"
    and f: "\<exists>cs. rx_ends db r (cursor_at t s) = cursor_at t e # cs"
    by (simp_all add: cursor_at_def)
  from b have s: "s \<le> length t" by simp
  from f have "cursor_at t e \<in> set (rx_ends db r (cursor_at t s))" by auto
  with rx_ends_lang [OF s, of "cursor_at t e" db r] obtain j where
    j: "rx_lang db r t s j" "cursor_at t e = cursor_at t j" by blast
  from rx_lang_bounds [OF j(1)] have "j \<le> length t" by simp
  from cursor_at_inj [OF j(2) b(2) this] j(1) show "rx_lang db r t s e" by simp
qed

lemma finditer_complete:
  assumes "0 < min_len r" "rx_lang db r t q e"
  shows "\<exists>(s, e') \<in> set (finditer db r t). s \<le> q \<and> q < e'"
proof -
  from rx_lang_bounds [OF assms(2)] have q: "q \<le> length t" by simp
  from assms(2) rx_ends_lang [OF q, of "cursor_at t e" db r]
  have "cursor_at t e \<in> set (rx_ends db r (cursor_at t q))" by blast
  then have m: "rx_ends db r (advance q (None, t)) \<noteq> []"
    by (auto simp: cursor_at_def)
  from finditer_from_complete [OF assms(1), of q "(None, t)" db False 0] q m
  show ?thesis by (simp add: finditer_def)
qed

section \<open>Case\<close>

lemma at_boundary_fold:
  assumes "class_blind db Word" "same_fold db c1 c2"
  shows "at_boundary db c1 = at_boundary db c2"
proof -
  obtain p1 r1 p2 r2 where c: "c1 = (p1, r1)" "c2 = (p2, r2)" by (cases c1, cases c2) auto
  from assms(2) c have p: "rel_option (same_lower db) p1 p2"
    and r: "list_all2 (same_lower db) r1 r2" by (simp_all add: same_fold_def)
  have w: "word_char db x = word_char db y" if "same_lower db x y" for x y
    using assms(1) that unfolding class_blind_def by auto
  from p have a: "(case p1 of None \<Rightarrow> False | Some c \<Rightarrow> word_char db c) =
      (case p2 of None \<Rightarrow> False | Some c \<Rightarrow> word_char db c)"
    by (cases p1; cases p2) (auto dest: w)
  from r have b: "(case r1 of [] \<Rightarrow> False | c # _ \<Rightarrow> word_char db c) =
      (case r2 of [] \<Rightarrow> False | c # _ \<Rightarrow> word_char db c)"
    by (cases r1; cases r2) (auto dest: w)
  from a b show ?thesis by (simp add: c)
qed

lemma same_fold_Cons:
  "same_fold db (p1, x # xs) (p2, r2) \<Longrightarrow>
     \<exists>y ys. r2 = y # ys \<and> same_lower db x y \<and> same_fold db (Some x, xs) (Some y, ys)"
  by (cases r2) (auto simp: same_fold_def)

lemma same_fold_Nil: "same_fold db (p1, []) (p2, r2) \<Longrightarrow> r2 = []"
  by (simp add: same_fold_def)

lemma lit_ends_fold:
  "\<forall>c \<in> set w. lit_blind db c \<Longrightarrow> same_fold db c1 c2 \<Longrightarrow>
     list_all2 (same_fold db) (lit_ends db w c1) (lit_ends db w c2)"
proof (induction db w c1 arbitrary: c2 rule: lit_ends.induct)
  case (1 db cur)
  then show ?case by simp
next
  case (2 db c cs p)
  obtain p2 r2 where c2: "c2 = (p2, r2)" by (cases c2)
  with 2 same_fold_Nil [of db p p2 r2] show ?case by simp
next
  case (3 db c cs p x xs)
  obtain p2 r2 where c2: "c2 = (p2, r2)" by (cases c2)
  from same_fold_Cons [OF "3.prems"(2) [unfolded c2]] obtain y ys where
    y: "r2 = y # ys" "same_lower db x y" "same_fold db (Some x, xs) (Some y, ys)"
    by blast
  from "3.prems"(1) y(2) have m: "lit_match db c x = lit_match db c y"
    by (simp add: lit_blind_def)
  from "3.prems"(1) have rest: "\<forall>c \<in> set cs. lit_blind db c" by simp
  show ?case
  proof (cases "lit_match db c x")
    case True
    from "3.IH" [OF True rest y(3)] True m y show ?thesis by (simp add: c2)
  next
    case False
    with m y show ?thesis by (simp add: c2)
  qed
qed

lemma cls_ends_fold:
  "class_blind db k \<Longrightarrow> same_fold db c1 c2 \<Longrightarrow>
     list_all2 (same_fold db) (cls_ends db k c1) (cls_ends db k c2)"
proof (induction db k c1 arbitrary: c2 rule: cls_ends.induct)
  case (1 db k p)
  obtain p2 r2 where c2: "c2 = (p2, r2)" by (cases c2)
  with 1 same_fold_Nil [of db p p2 r2] show ?case by simp
next
  case (2 db k p x xs)
  obtain p2 r2 where c2: "c2 = (p2, r2)" by (cases c2)
  from same_fold_Cons [OF "2.prems"(2) [unfolded c2]] obtain y ys where
    y: "r2 = y # ys" "same_lower db x y" "same_fold db (Some x, xs) (Some y, ys)"
    by blast
  from "2.prems"(1) y(2) have "in_class db k x = in_class db k y"
    by (simp add: class_blind_def)
  with y show ?case by (simp add: c2)
qed

lemma star_ends_fold:
  "class_blind db k \<Longrightarrow> same_fold db c1 c2 \<Longrightarrow>
     list_all2 (same_fold db) (star_ends db k c1) (star_ends db k c2)"
proof (induction db k c1 arbitrary: c2 rule: star_ends.induct)
  case (1 db k p)
  obtain p2 r2 where c2: "c2 = (p2, r2)" by (cases c2)
  with 1 same_fold_Nil [of db p p2 r2] show ?case by simp
next
  case (2 db k p x xs)
  obtain p2 r2 where c2: "c2 = (p2, r2)" by (cases c2)
  from same_fold_Cons [OF "2.prems"(2) [unfolded c2]] obtain y ys where
    y: "r2 = y # ys" "same_lower db x y" "same_fold db (Some x, xs) (Some y, ys)"
    by blast
  from "2.prems"(1) y(2) have k: "in_class db k x = in_class db k y"
    by (simp add: class_blind_def)
  show ?case
  proof (cases "in_class db k x")
    case True
    from "2.IH" [OF True "2.prems"(1) y(3)] True k y "2.prems"(2) show ?thesis
      by (simp add: c2 list_all2_appendI)
  next
    case False
    with k y "2.prems"(2) show ?thesis by (simp add: c2)
  qed
qed

lemma list_all2_concat_map:
  assumes "list_all2 R xs ys" and "\<And>x y. R x y \<Longrightarrow> list_all2 S (f x) (g y)"
  shows "list_all2 S (concat (map f xs)) (concat (map g ys))"
  using assms(1)
proof (induction rule: list_all2_induct)
  case Nil
  then show ?case by simp
next
  case (Cons x xs y ys)
  with assms(2) show ?case by (simp add: list_all2_appendI)
qed

lemma rx_ends_fold:
  "case_blind db x \<Longrightarrow> same_fold db c1 c2 \<Longrightarrow>
     list_all2 (same_fold db) (rx_ends db x c1) (rx_ends db x c2)"
proof (induction x arbitrary: c1 c2)
  case (Str w)
  then show ?case by (simp add: lit_ends_fold)
next
  case (Cls k)
  then show ?case by (simp add: cls_ends_fold)
next
  case (Star k)
  then show ?case by (simp add: star_ends_fold)
next
  case (Plus k)
  then have b: "class_blind db k" by simp
  show ?case
    unfolding rx_ends.simps
    by (rule list_all2_concat_map [OF cls_ends_fold [OF b Plus.prems(2)]])
       (rule star_ends_fold [OF b])
next
  case (Opt x)
  then show ?case by (simp add: list_all2_appendI)
next
  case WordB
  then show ?case using at_boundary_fold [of db c1 c2] by simp
next
  case (Seq a b)
  then have ba: "case_blind db a" and bb: "case_blind db b" by simp_all
  show ?case
    unfolding rx_ends.simps
    by (rule list_all2_concat_map [OF Seq.IH(1) [OF ba Seq.prems(2)]]) (rule Seq.IH(2) [OF bb])
next
  case (Alt a b)
  then show ?case by (simp add: list_all2_appendI)
qed

lemma same_fold_length: "same_fold db c1 c2 \<Longrightarrow> length (snd c1) = length (snd c2)"
  unfolding same_fold_def by (auto dest: list_all2_lengthD)

lemma first_end_fold:
  "list_all2 (same_fold db) e1 e2 \<Longrightarrow>
     rel_option (\<lambda>a b. fst a = fst b \<and> same_fold db (snd a) (snd b))
       (first_end adv n e1) (first_end adv n e2)"
proof (induction rule: list_all2_induct)
  case Nil
  then show ?case by simp
next
  case (Cons c1 e1 c2 e2)
  obtain p1 r1 p2 r2 where c: "c1 = (p1, r1)" "c2 = (p2, r2)" by (cases c1, cases c2) auto
  from same_fold_length [OF Cons(1)] c have "length r1 = length r2" by simp
  with Cons c show ?case by (cases adv) simp_all
qed

lemma finditer_from_fold:
  "case_blind db r \<Longrightarrow> same_fold db c1 c2 \<Longrightarrow>
     finditer_from db r adv pos c1 = finditer_from db r adv pos c2"
proof (induction db r adv pos c1 arbitrary: c2 rule: finditer_from.induct)
  case (1 db r adv pos p rest)
  note blind = "1.prems"(1) and sf = "1.prems"(2)
  obtain p2 r2 where c2: "c2 = (p2, r2)" by (cases c2)
  from same_fold_length [OF sf] c2 have len: "length r2 = length rest" by simp
  from first_end_fold [OF rx_ends_fold [OF blind sf], of adv "length rest"]
  have rel: "rel_option (\<lambda>a b. fst a = fst b \<and> same_fold db (snd a) (snd b))
      (first_end adv (length rest) (rx_ends db r (p, rest)))
      (first_end adv (length r2) (rx_ends db r (p2, r2)))"
    by (simp add: c2 len)
  show ?case
  proof (cases "first_end adv (length rest) (rx_ends db r (p, rest))")
    case None
    with rel have none2: "first_end adv (length r2) (rx_ends db r (p2, r2)) = None"
      by (cases "first_end adv (length r2) (rx_ends db r (p2, r2))") simp_all
    show ?thesis
    proof (cases rest)
      case Nil
      with len None none2 show ?thesis by (simp add: c2)
    next
      case (Cons x xs)
      from same_fold_Cons [OF sf [unfolded c2 Cons]] obtain y ys where
        y: "r2 = y # ys" "same_fold db (Some x, xs) (Some y, ys)" by blast
      from "1.IH"(1) [OF None Cons blind y(2)] None none2 Cons y(1) show ?thesis
        by (simp add: c2)
    qed
  next
    case (Some kc)
    obtain k c where kc: "kc = (k, c)" by (cases kc)
    from rel Some kc obtain c' where
      some2: "first_end adv (length r2) (rx_ends db r (p2, r2)) = Some (k, c')" and
      sf': "same_fold db c c'"
      by (cases "first_end adv (length r2) (rx_ends db r (p2, r2))") auto
    from "1.IH"(2) [OF Some kc [symmetric] blind sf'] Some kc some2 show ?thesis
      by (simp add: c2)
  qed
qed

lemma finditer_fold:
  "case_blind db r \<Longrightarrow> list_all2 (same_lower db) t1 t2 \<Longrightarrow> finditer db r t1 = finditer db r t2"
  unfolding finditer_def by (rule finditer_from_fold) (simp_all add: same_fold_def)

section \<open>The content detector and the matches it reports\<close>

lemma code_point_bound: "code_point c < 256"
  by (simp add: code_point_def)

lemma code_point_char_of: "n < 256 \<Longrightarrow> code_point (char_of n) = n"
  by (simp add: code_point_def)

lemma code_point_inj: "code_point a = code_point b \<Longrightarrow> a = b"
  by (simp add: code_point_def)

lemma code_point_eq: "(a = b) = (code_point a = code_point b)"
  by (auto dest: code_point_inj)

lemma code_point_lower_char:
  "code_point (lower_char c) =
     (if (65 \<le> code_point c \<and> code_point c \<le> 90) \<or>
         (192 \<le> code_point c \<and> code_point c \<le> 222 \<and> code_point c \<noteq> 215)
      then code_point c + 32 else code_point c)"
  using code_point_bound [of c]
  by (auto simp: lower_char_def Let_def code_point_char_of)

lemma is_alnum_lower_char: "is_alnum (lower_char c) = is_alnum c"
  unfolding is_alnum_def Let_def code_point_lower_char
  using code_point_bound [of c] by auto

lemma is_space_lower_char: "is_space (lower_char c) = is_space c"
  unfolding is_space_def Let_def code_point_lower_char
  using code_point_bound [of c] by auto

lemma lower_char_uncased: "\<not> is_cased c \<Longrightarrow> (lower_char x = c) = (x = c)"
  unfolding code_point_eq [of "lower_char x"] code_point_eq [of x] code_point_lower_char
    is_cased_def Let_def
  using code_point_bound [of x] by auto

lemma same_lower_uncased:
  assumes "same_lower latin1 x y" "\<not> is_cased c"
  shows "(x = c) = (y = c)"
proof -
  from assms(1) have e: "lower_char x = lower_char y" by (simp add: same_lower_def latin1_def)
  from lower_char_uncased [OF assms(2), of x] lower_char_uncased [OF assms(2), of y]
    lower_char_uncased [OF assms(2), of c] e
  show ?thesis by metis
qed

lemma latin1_lit_blind: "lit_blind latin1 c"
proof (cases "is_cased c")
  case True
  then show ?thesis
    by (simp add: lit_blind_def lit_match_def latin1_def same_lower_def)
next
  case False
  have "lit_match latin1 c x = lit_match latin1 c y" if "same_lower latin1 x y" for x y
    using same_lower_uncased [OF that False] False by (simp add: lit_match_def latin1_def)
  then show ?thesis by (simp add: lit_blind_def)
qed

lemma latin1_class_blind:
  assumes "case k of OneOf cs \<Rightarrow> \<forall>c \<in> set cs. \<not> is_cased c
     | NoneOf cs \<Rightarrow> \<forall>c \<in> set cs. \<not> is_cased c | _ \<Rightarrow> True"
  shows "class_blind latin1 k"
proof -
  have u: "\<not> is_cased CHR ''_''" "\<not> is_cased (CHR 0x0A)" by code_simp+
  have "in_class latin1 k x = in_class latin1 k y" if s: "same_lower latin1 x y" for x y
  proof -
    from s have e: "lower_char x = lower_char y" by (simp add: same_lower_def latin1_def)
    show ?thesis
    proof (cases k)
      case Dot
      with same_lower_uncased [OF s u(2)] show ?thesis by (simp add: latin1_def)
    next
      case Word
      from is_alnum_lower_char [of x] is_alnum_lower_char [of y] e
      have "is_alnum x = is_alnum y" by simp
      with Word same_lower_uncased [OF s u(1)] show ?thesis
        by (simp add: latin1_def word_char_def)
    next
      case Space
      from is_space_lower_char [of x] is_space_lower_char [of y] e
      have "is_space x = is_space y" by simp
      with Space show ?thesis by (simp add: latin1_def)
    next
      case (OneOf cs)
      with assms have "\<forall>c \<in> set cs. (x = c) = (y = c)"
        using same_lower_uncased [OF s] by simp
      then have "(x \<in> set cs) = (y \<in> set cs)" by metis
      with OneOf show ?thesis by (simp add: latin1_def)
    next
      case (NoneOf cs)
      with assms have "\<forall>c \<in> set cs. (x = c) = (y = c)"
        using same_lower_uncased [OF s] by simp
      then have "(x \<in> set cs) = (y \<in> set cs)" by metis
      with NoneOf show ?thesis by (simp add: latin1_def)
    qed
  qed
  then show ?thesis by (simp add: class_blind_def)
qed

lemma registry_uncased:
  "\<not> is_cased CHR ''>''" "\<not> is_cased CHR ''_''" "\<not> is_cased CHR ''-''"
  by code_simp+

lemma patterns_blind: "(kind, rx) \<in> set patterns \<Longrightarrow> case_blind latin1 rx"
  by (auto simp: patterns_def sql_injection_rx_def xss_vulnerability_rx_def
      sensitive_data_rx_def path_traversal_rx_def open_redirect_rx_def
      latin1_lit_blind latin1_class_blind registry_uncased)

lemma same_lower_latin1:
  "map lower_char t1 = map lower_char t2 \<Longrightarrow> list_all2 (same_lower latin1) t1 t2"
proof (induction t1 arbitrary: t2)
  case Nil
  then show ?case by simp
next
  case (Cons x xs)
  then obtain y ys where "t2 = y # ys" "lower_char x = lower_char y"
      "map lower_char xs = map lower_char ys" by (cases t2) auto
  with Cons.IH [of ys] show ?case by (simp add: same_lower_def latin1_def)
qed

lemma match_loop_eq:
  "match_loop db kind url t ms issues = issues @ map (content_issue db kind url t) ms"
  by (induction ms arbitrary: issues) simp_all

lemma pattern_loop_eq:
  "pattern_loop db url t ps issues =
     issues @ concat (map (\<lambda>(kind, rx). map (content_issue db kind url t) (finditer db rx t)) ps)"
  by (induction ps arbitrary: issues) (auto simp: match_loop_eq)

lemma analyze_text_eq:
  "analyze_text db url t =
     concat (map (\<lambda>(kind, rx). map (content_issue db kind url t) (finditer db rx t)) patterns)"
  by (simp add: analyze_text_def pattern_loop_eq)

lemma patterns_positive: "(kind, rx) \<in> set patterns \<Longrightarrow> 0 < min_len rx"
  by (auto simp: patterns_def sql_injection_rx_def xss_vulnerability_rx_def
      sensitive_data_rx_def path_traversal_rx_def open_redirect_rx_def)

lemma patterns_severity:
  "(kind, rx) \<in> set patterns \<Longrightarrow> \<exists>sev. map_of severity_mapping kind = Some sev"
  by (auto simp: patterns_def severity_mapping_def)

lemma context_slice:
  "py_slice t (max 0 (int s - 30)) (min (int (length t)) (int e + 30)) =
     between t (s - 30) (min (length t) (e + 30))"
proof -
  have a: "nat (max 0 (int s - 30)) = s - 30" by simp
  have b: "nat (min (int (length t)) (int e + 30)) = min (length t) (e + 30)" by simp
  show ?thesis unfolding py_slice_def between_def a b ..
qed

lemma content_issue_fields:
  assumes "map_of severity_mapping kind = Some sev"
  shows "content_issue db kind url t (s, e) =
     \<lparr>finding_id = ''deep_'' @ kind,
      finding_severity = sev,
      finding_details = ''Potential '' @ replace_underscores kind @ '' detected'',
      finding_context = strip db (between t (s - 30) (min (length t) (e + 30))),
      finding_url = url,
      finding_position = int s\<rparr>"
  using assms by (simp add: content_issue_def context_slice)

lemma analyze_text_empty_iff:
  "(analyze_text db url t = []) = (\<forall>(kind, rx) \<in> set patterns. finditer db rx t = [])"
  unfolding analyze_text_eq by auto

lemma finditer_empty_iff:
  assumes "0 < min_len r"
  shows "(finditer db r t = []) = (\<forall>s e. \<not> rx_lang db r t s e)"
proof
  assume n: "finditer db r t = []"
  show "\<forall>s e. \<not> rx_lang db r t s e"
  proof (intro allI notI)
    fix s e assume "rx_lang db r t s e"
    from finditer_complete [OF assms this] n show False by simp
  qed
next
  assume n: "\<forall>s e. \<not> rx_lang db r t s e"
  show "finditer db r t = []"
  proof (cases "finditer db r t")
    case Nil
    then show ?thesis .
  next
    case (Cons m ms)
    obtain s e where "m = (s, e)" by (cases m)
    with Cons have "(s, e) \<in> set (finditer db r t)" by simp
    from finditer_sound(4) [OF assms this] n show ?thesis by simp
  qed
qed

lemma rx_lang_empty_text: "0 < min_len r \<Longrightarrow> \<not> rx_lang db r [] s e"
proof
  assume p: "0 < min_len r" and m: "rx_lang db r [] s e"
  from rx_lang_bounds [OF m] have b: "s = 0" "e = 0" by simp_all
  have "cursor_at [] 0 \<in> set (rx_ends db r (cursor_at [] 0))"
    using rx_ends_lang [of 0 "[]" "cursor_at [] 0" db r] m b by auto
  from rx_ends_advance [OF this] p show False by (simp add: cursor_at_def)
qed

lemma analyze_content_dicts:
  "analyze_content u (JStr content) =
     Inr (concat (map (\<lambda>(kind, rx). map (\<lambda>(s, e).
            JObj [(''id'', JStr (''deep_'' @ kind)),
                  (''severity'', JStr (the (map_of severity_mapping kind))),
                  (''details'', JStr (''Potential '' @ replace_underscores kind @ '' detected'')),
                  (''context'', JStr (strip latin1
                     (between content (s - 30) (min (length content) (e + 30))))),
                  (''url'', u),
                  (''position'', JInt (int s))])
          (finditer latin1 rx content)) patterns))"
proof -
  have one: "map issue_json (map (content_issue latin1 kind u content) spans) =
      map (\<lambda>(s, e).
            JObj [(''id'', JStr (''deep_'' @ kind)),
                  (''severity'', JStr (the (map_of severity_mapping kind))),
                  (''details'', JStr (''Potential '' @ replace_underscores kind @ '' detected'')),
                  (''context'', JStr (strip latin1
                     (between content (s - 30) (min (length content) (e + 30))))),
                  (''url'', u),
                  (''position'', JInt (int s))]) spans"
    if "(kind, rx) \<in> set patterns" for kind rx spans
  proof -
    from patterns_severity [OF that] obtain sev where
      sev: "map_of severity_mapping kind = Some sev" by blast
    show ?thesis
      by (induction spans) (auto simp: content_issue_fields [OF sev] issue_json_def sev)
  qed
  have "map issue_json (concat (map (\<lambda>(kind, rx).
        map (content_issue latin1 kind u content) (finditer latin1 rx content)) ps)) =
      concat (map (\<lambda>(kind, rx). map (\<lambda>(s, e).
            JObj [(''id'', JStr (''deep_'' @ kind)),
                  (''severity'', JStr (the (map_of severity_mapping kind))),
                  (''details'', JStr (''Potential '' @ replace_underscores kind @ '' detected'')),
                  (''context'', JStr (strip latin1
                     (between content (s - 30) (min (length content) (e + 30))))),
                  (''url'', u),
                  (''position'', JInt (int s))])
          (finditer latin1 rx content)) ps)"
    if "set ps \<subseteq> set patterns" for ps
    using that
  proof (induction ps)
    case Nil
    then show ?case by simp
  next
    case (Cons p ps)
    obtain kind rx where p: "p = (kind, rx)" by (cases p)
    with Cons.prems have m: "(kind, rx) \<in> set patterns" and r: "set ps \<subseteq> set patterns"
      by simp_all
    from Cons.IH [OF r] one [OF m, of "finditer latin1 rx content"] show ?case
      by (simp add: p)
  qed
  from this [of patterns] show ?thesis
    by (simp add: analyze_text_eq)
qed

text \<open>
  C5. For every url and every text, whatever its characters and the character tables,
  the content detector returns, for each rule of the registry in its order and for each
  span that \<open>finditer\<close> reports for the rule's pattern in the text, in their order, one
  finding: its id is \<^verbatim>\<open>deep_\<close> followed by the kind, its severity is the rule's, its
  context is the text from 30 characters before the start of the span to 30 characters
  after its end, cut at the bounds of the text and stripped of leading and trailing
  whitespace, and its position is the start of the span. The spans of a rule are
  non-empty, ascending and do not overlap; each is a match of the pattern in the sense
  of \<open>rx_lang\<close>, with the end that the pattern prefers at that start; every offset at
  which the pattern matches lies in a reported span from its start on, so no match is
  left out but those that overlap a reported one; and when the pattern is blind to case
  the spans do not change as characters of the text are replaced by characters of the
  same lower case. The detector returns no finding on the empty text, and on a text it
  returns none exactly when no pattern of the registry matches anywhere in it. On the
  strings of \<^typ>\<open>json\<close> \<open>analyze_content\<close> returns, without error, these findings as
  dictionaries with the keys \<^verbatim>\<open>id\<close>, \<^verbatim>\<open>severity\<close>, \<^verbatim>\<open>details\<close>, \<^verbatim>\<open>context\<close>, \<^verbatim>\<open>url\<close> and
  \<^verbatim>\<open>position\<close>, and none for the empty string; and the spans of every rule are the same
  in two strings that differ in the case of their characters only.
\<close>

theorem content_detector_all_matches:
  "analyze_text db url text =
     concat (map (\<lambda>(kind, rx). map (content_issue db kind url text) (finditer db rx text))
               patterns) \<and>
   (\<forall>(kind, rx) \<in> set patterns.
      spans_in_order 0 (finditer db rx text) (length text) \<and>
      (\<forall>(s, e) \<in> set (finditer db rx text).
         rx_lang db rx text s e \<and>
         (\<exists>cs. rx_ends db rx (cursor_at text s) = cursor_at text e # cs)) \<and>
      (\<forall>q e. rx_lang db rx text q e \<longrightarrow>
         (\<exists>(s, e') \<in> set (finditer db rx text). s \<le> q \<and> q < e')) \<and>
      (case_blind db rx \<longrightarrow>
         (\<forall>text'. list_all2 (same_lower db) text' text \<longrightarrow>
            finditer db rx text' = finditer db rx text)) \<and>
      (\<exists>sev. map_of severity_mapping kind = Some sev \<and>
         (\<forall>s e. content_issue db kind url text (s, e) =
            \<lparr>finding_id = ''deep_'' @ kind,
             finding_severity = sev,
             finding_details = ''Potential '' @ replace_underscores kind @ '' detected'',
             finding_context = strip db (between text (s - 30) (min (length text) (e + 30))),
             finding_url = url,
             finding_position = int s\<rparr>))) \<and>
   analyze_text db url [] = [] \<and>
   ((analyze_text db url text = []) =
      (\<forall>(kind, rx) \<in> set patterns. \<forall>s e. \<not> rx_lang db rx text s e)) \<and>
   analyze_content u (JStr content) =
     Inr (concat (map (\<lambda>(kind, rx). map (\<lambda>(s, e).
            JObj [(''id'', JStr (''deep_'' @ kind)),
                  (''severity'', JStr (the (map_of severity_mapping kind))),
                  (''details'', JStr (''Potential '' @ replace_underscores kind @ '' detected'')),
                  (''context'', JStr (strip latin1
                     (between content (s - 30) (min (length content) (e + 30))))),
                  (''url'', u),
                  (''position'', JInt (int s))])
          (finditer latin1 rx content)) patterns)) \<and>
   analyze_content u (JStr []) = Inr [] \<and>
   (\<forall>content'. map lower_char content' = map lower_char content \<longrightarrow>
      (\<forall>(kind, rx) \<in> set patterns. finditer latin1 rx content' = finditer latin1 rx content))"
proof -
  have rule: "spans_in_order 0 (finditer db rx text) (length text) \<and>
      (\<forall>(s, e) \<in> set (finditer db rx text).
         rx_lang db rx text s e \<and>
         (\<exists>cs. rx_ends db rx (cursor_at text s) = cursor_at text e # cs)) \<and>
      (\<forall>q e. rx_lang db rx text q e \<longrightarrow>
         (\<exists>(s, e') \<in> set (finditer db rx text). s \<le> q \<and> q < e')) \<and>
      (case_blind db rx \<longrightarrow>
         (\<forall>text'. list_all2 (same_lower db) text' text \<longrightarrow>
            finditer db rx text' = finditer db rx text)) \<and>
      (\<exists>sev. map_of severity_mapping kind = Some sev \<and>
         (\<forall>s e. content_issue db kind url text (s, e) =
            \<lparr>finding_id = ''deep_'' @ kind,
             finding_severity = sev,
             finding_details = ''Potential '' @ replace_underscores kind @ '' detected'',
             finding_context = strip db (between text (s - 30) (min (length text) (e + 30))),
             finding_url = url,
             finding_position = int s\<rparr>))"
    if mem: "(kind, rx) \<in> set patterns" for kind rx
  proof -
    note positive = patterns_positive [OF mem]
    have 1: "spans_in_order 0 (finditer db rx text) (length text)"
      by (rule finditer_spans [OF positive])
    have 2: "\<forall>(s, e) \<in> set (finditer db rx text).
         rx_lang db rx text s e \<and>
         (\<exists>cs. rx_ends db rx (cursor_at text s) = cursor_at text e # cs)"
    proof (intro ballI, clarify)
      fix s e assume m: "(s, e) \<in> set (finditer db rx text)"
      show "rx_lang db rx text s e \<and>
         (\<exists>cs. rx_ends db rx (cursor_at text s) = cursor_at text e # cs)"
        by (intro conjI finditer_sound(4) [OF positive m] finditer_sound(3) [OF positive m])
    qed
    have 3: "\<forall>q e. rx_lang db rx text q e \<longrightarrow>
         (\<exists>(s, e') \<in> set (finditer db rx text). s \<le> q \<and> q < e')"
      by (intro allI impI) (rule finditer_complete [OF positive])
    have 4: "case_blind db rx \<longrightarrow>
         (\<forall>text'. list_all2 (same_lower db) text' text \<longrightarrow>
            finditer db rx text' = finditer db rx text)"
      by (intro allI impI) (rule finditer_fold)
    from patterns_severity [OF mem] obtain sev where
      sev: "map_of severity_mapping kind = Some sev" by blast
    have 5: "\<exists>sev. map_of severity_mapping kind = Some sev \<and>
         (\<forall>s e. content_issue db kind url text (s, e) =
            \<lparr>finding_id = ''deep_'' @ kind,
             finding_severity = sev,
             finding_details = ''Potential '' @ replace_underscores kind @ '' detected'',
             finding_context = strip db (between text (s - 30) (min (length text) (e + 30))),
             finding_url = url,
             finding_position = int s\<rparr>)"
      by (intro exI [of _ sev] conjI sev allI content_issue_fields [OF sev])
    show ?thesis
      by (intro conjI 1 2 3 4 5)
  qed
  have rules: "\<forall>(kind, rx) \<in> set patterns.
      spans_in_order 0 (finditer db rx text) (length text) \<and>
      (\<forall>(s, e) \<in> set (finditer db rx text).
         rx_lang db rx text s e \<and>
         (\<exists>cs. rx_ends db rx (cursor_at text s) = cursor_at text e # cs)) \<and>
      (\<forall>q e. rx_lang db rx text q e \<longrightarrow>
         (\<exists>(s, e') \<in> set (finditer db rx text). s \<le> q \<and> q < e')) \<and>
      (case_blind db rx \<longrightarrow>
         (\<forall>text'. list_all2 (same_lower db) text' text \<longrightarrow>
            finditer db rx text' = finditer db rx text)) \<and>
      (\<exists>sev. map_of severity_mapping kind = Some sev \<and>
         (\<forall>s e. content_issue db kind url text (s, e) =
            \<lparr>finding_id = ''deep_'' @ kind,
             finding_severity = sev,
             finding_details = ''Potential '' @ replace_underscores kind @ '' detected'',
             finding_context = strip db (between text (s - 30) (min (length text) (e + 30))),
             finding_url = url,
             finding_position = int s\<rparr>))"
    by (intro ballI, clarify) (rule rule)
  have iff: "(analyze_text db url t = []) =
      (\<forall>(kind, rx) \<in> set patterns. \<forall>s e. \<not> rx_lang db rx t s e)" for t
  proof -
    have "(\<forall>(kind, rx) \<in> set patterns. finditer db rx t = []) =
        (\<forall>(kind, rx) \<in> set patterns. \<forall>s e. \<not> rx_lang db rx t s e)"
      using finditer_empty_iff [OF patterns_positive] by (intro ball_cong refl) auto
    then show ?thesis by (simp only: analyze_text_empty_iff)
  qed
  have empty: "analyze_text db url [] = []"
  proof -
    have "\<forall>s e. \<not> rx_lang db rx [] s e" if "(kind, rx) \<in> set patterns" for kind rx
      by (intro allI) (rule rx_lang_empty_text [OF patterns_positive [OF that]])
    then show ?thesis unfolding iff by fast
  qed
  have empty_json: "analyze_content u (JStr []) = Inr []"
  proof -
    have "finditer latin1 rx [] = []" if "(kind, rx) \<in> set patterns" for kind rx
      using finditer_empty_iff [OF patterns_positive [OF that], of latin1 "[]"]
        rx_lang_empty_text [OF patterns_positive [OF that], of latin1] by simp
    then have "analyze_text latin1 u [] = []"
      unfolding analyze_text_empty_iff by fast
    then show ?thesis by simp
  qed
  have fold: "\<forall>content'. map lower_char content' = map lower_char content \<longrightarrow>
      (\<forall>(kind, rx) \<in> set patterns. finditer latin1 rx content' = finditer latin1 rx content)"
  proof (intro allI impI ballI, clarify)
    fix content' kind rx
    assume e: "map lower_char content' = map lower_char content"
      and m: "(kind, rx) \<in> set patterns"
    show "finditer latin1 rx content' = finditer latin1 rx content"
      by (rule finditer_fold [OF patterns_blind [OF m] same_lower_latin1 [OF e]])
  qed
  show ?thesis
    by (intro conjI analyze_text_eq rules empty iff analyze_content_dicts empty_json fold)
qed

text \<open>
  The detector on sample texts: a query in which the greedy \<^verbatim>\<open>.*\<close> runs to the last
  keyword; the same query in lower case; a script tag with an attribute; a text in which
  \<^verbatim>\<open>drop\<close> and \<^verbatim>\<open>set\<close> occur inside words only; two matches of one rule, with the context
  trimmed; and a text with the long s and the em space.
\<close>

theorem content_detector_all_matches_witness:
  "analyze_content (JStr ''u'') (JStr sample_sql) =
     Inr [JObj [(''id'', JStr ''deep_sql_injection''),
                (''severity'', JStr ''critical''),
                (''details'', JStr ''Potential sql injection detected''),
                (''context'', JStr ''SELECT * FROM users WHERE id=1''),
                (''url'', JStr ''u''),
                (''position'', JInt 0)]] \<and>
   finditer latin1 sql_injection_rx sample_sql = [(0, 25)] \<and>
   rx_lang latin1 sql_injection_rx sample_sql 0 25 \<and>
   finditer latin1 sql_injection_rx ''select * from users where id=1'' = [(0, 25)] \<and>
   analyze_content (JStr ''u'') (JStr sample_xss) =
     Inr [JObj [(''id'', JStr ''deep_xss_vulnerability''),
                (''severity'', JStr ''high''),
                (''details'', JStr ''Potential xss vulnerability detected''),
                (''context'', JStr ''<script src=x>alert(1)</script>''),
                (''url'', JStr ''u''),
                (''position'', JInt 0)]] \<and>
   analyze_content (JStr ''u'') (JStr ''backdrops upset'') = Inr [] \<and>
   \<not> rx_lang latin1 sql_injection_rx ''backdrops upset'' 4 8 \<and>
   analyze_content (JStr ''u'') (JStr '' R=1&URL=x '') =
     Inr [JObj [(''id'', JStr ''deep_open_redirect''),
                (''severity'', JStr ''medium''),
                (''details'', JStr ''Potential open redirect detected''),
                (''context'', JStr ''R=1&URL=x''),
                (''url'', JStr ''u''),
                (''position'', JInt 1)],
          JObj [(''id'', JStr ''deep_open_redirect''),
                (''severity'', JStr ''medium''),
                (''details'', JStr ''Potential open redirect detected''),
                (''context'', JStr ''R=1&URL=x''),
                (''url'', JStr ''u''),
                (''position'', JInt 5)]] \<and>
   analyze_text unicode_excerpt () sample_unicode =
     [\<lparr>finding_id = ''deep_sensitive_data'',
       finding_severity = ''high'',
       finding_details = ''Potential sensitive data detected'',
       finding_context = [0x50, 0x41, 0x17F, 0x17F, 0x57, 0x4F, 0x52, 0x44],
       finding_url = (),
       finding_position = 1\<rparr>]"
proof -
  note sql = content_detector_all_matches
    [of latin1 "JStr ''u''" sample_sql "JStr ''u''" sample_sql]
  have sql_eval: "Inr (concat (map (\<lambda>(kind, rx). map (\<lambda>(s, e).
            JObj [(''id'', JStr (''deep_'' @ kind)),
                  (''severity'', JStr (the (map_of severity_mapping kind))),
                  (''details'', JStr (''Potential '' @ replace_underscores kind @ '' detected'')),
                  (''context'', JStr (strip latin1
                     (between sample_sql (s - 30) (min (length sample_sql) (e + 30))))),
                  (''url'', JStr ''u''),
                  (''position'', JInt (int s))])
          (finditer latin1 rx sample_sql)) patterns)) =
     (Inr [JObj [(''id'', JStr ''deep_sql_injection''),
                (''severity'', JStr ''critical''),
                (''details'', JStr ''Potential sql injection detected''),
                (''context'', JStr ''SELECT * FROM users WHERE id=1''),
                (''url'', JStr ''u''),
                (''position'', JInt 0)]] :: py_error + json list)"
    by code_simp
  have 1: "analyze_content (JStr ''u'') (JStr sample_sql) =
     Inr [JObj [(''id'', JStr ''deep_sql_injection''),
                (''severity'', JStr ''critical''),
                (''details'', JStr ''Potential sql injection detected''),
                (''context'', JStr ''SELECT * FROM users WHERE id=1''),
                (''url'', JStr ''u''),
                (''position'', JInt 0)]]"
    unfolding sql [THEN conjunct2, THEN conjunct2, THEN conjunct2, THEN conjunct2, THEN conjunct1]
    by (rule sql_eval)
  have mem: "(''sql_injection'', sql_injection_rx) \<in> set patterns"
    by (simp add: patterns_def)
  note rule = bspec [OF sql [THEN conjunct2, THEN conjunct1] mem, unfolded prod.case]
  have 2: "finditer latin1 sql_injection_rx sample_sql = [(0, 25)]"
    by code_simp
  then have span: "(0, 25) \<in> set (finditer latin1 sql_injection_rx sample_sql)"
    by simp
  from bspec [OF rule [THEN conjunct2, THEN conjunct1] span]
  have 3: "rx_lang latin1 sql_injection_rx sample_sql 0 25"
    by simp
  have lower: "map lower_char ''select * from users where id=1'' = map lower_char sample_sql"
    by code_simp
  from rule [THEN conjunct2, THEN conjunct2, THEN conjunct2, THEN conjunct1, THEN mp,
    OF patterns_blind [OF mem], THEN spec, THEN mp, OF same_lower_latin1 [OF lower]]
  have "finditer latin1 sql_injection_rx ''select * from users where id=1'' =
      finditer latin1 sql_injection_rx sample_sql" .
  with 2 have 4: "finditer latin1 sql_injection_rx ''select * from users where id=1'' = [(0, 25)]"
    by simp
  note xss = content_detector_all_matches
    [of latin1 "JStr ''u''" sample_xss "JStr ''u''" sample_xss]
  have xss_eval: "Inr (concat (map (\<lambda>(kind, rx). map (\<lambda>(s, e).
            JObj [(''id'', JStr (''deep_'' @ kind)),
                  (''severity'', JStr (the (map_of severity_mapping kind))),
                  (''details'', JStr (''Potential '' @ replace_underscores kind @ '' detected'')),
                  (''context'', JStr (strip latin1
                     (between sample_xss (s - 30) (min (length sample_xss) (e + 30))))),
                  (''url'', JStr ''u''),
                  (''position'', JInt (int s))])
          (finditer latin1 rx sample_xss)) patterns)) =
     (Inr [JObj [(''id'', JStr ''deep_xss_vulnerability''),
                (''severity'', JStr ''high''),
                (''details'', JStr ''Potential xss vulnerability detected''),
                (''context'', JStr ''<script src=x>alert(1)</script>''),
                (''url'', JStr ''u''),
                (''position'', JInt 0)]] :: py_error + json list)"
    by code_simp
  have 5: "analyze_content (JStr ''u'') (JStr sample_xss) =
     Inr [JObj [(''id'', JStr ''deep_xss_vulnerability''),
                (''severity'', JStr ''high''),
                (''details'', JStr ''Potential xss vulnerability detected''),
                (''context'', JStr ''<script src=x>alert(1)</script>''),
                (''url'', JStr ''u''),
                (''position'', JInt 0)]]"
    unfolding xss [THEN conjunct2, THEN conjunct2, THEN conjunct2, THEN conjunct2, THEN conjunct1]
    by (rule xss_eval)
  note none = content_detector_all_matches
    [of latin1 "JStr ''u''" "''backdrops upset''" "JStr ''u''" "''backdrops upset''"]
  have none_eval: "concat (map (\<lambda>(kind, rx).
        map (content_issue latin1 kind (JStr ''u'') ''backdrops upset'')
          (finditer latin1 rx ''backdrops upset'')) patterns) = []"
    by code_simp
  then have none_text: "analyze_text latin1 (JStr ''u'') ''backdrops upset'' = []"
    unfolding none [THEN conjunct1] .
  have 6: "analyze_content (JStr ''u'') (JStr ''backdrops upset'') = Inr []"
    using none_text by simp
  from none [THEN conjunct2, THEN conjunct2, THEN conjunct2, THEN conjunct1] none_text
  have "\<forall>(kind, rx) \<in> set patterns. \<forall>s e. \<not> rx_lang latin1 rx ''backdrops upset'' s e"
    by (rule iffD1)
  from bspec [OF this mem]
  have 7: "\<not> rx_lang latin1 sql_injection_rx ''backdrops upset'' 4 8"
    by simp
  note two = content_detector_all_matches
    [of latin1 "JStr ''u''" "'' R=1&URL=x ''" "JStr ''u''" "'' R=1&URL=x ''"]
  have two_eval: "Inr (concat (map (\<lambda>(kind, rx). map (\<lambda>(s, e).
            JObj [(''id'', JStr (''deep_'' @ kind)),
                  (''severity'', JStr (the (map_of severity_mapping kind))),
                  (''details'', JStr (''Potential '' @ replace_underscores kind @ '' detected'')),
                  (''context'', JStr (strip latin1
                     (between '' R=1&URL=x '' (s - 30) (min (length '' R=1&URL=x '') (e + 30))))),
                  (''url'', JStr ''u''),
                  (''position'', JInt (int s))])
          (finditer latin1 rx '' R=1&URL=x '')) patterns)) =
     (Inr [JObj [(''id'', JStr ''deep_open_redirect''),
                (''severity'', JStr ''medium''),
                (''details'', JStr ''Potential open redirect detected''),
                (''context'', JStr ''R=1&URL=x''),
                (''url'', JStr ''u''),
                (''position'', JInt 1)],
          JObj [(''id'', JStr ''deep_open_redirect''),
                (''severity'', JStr ''medium''),
                (''details'', JStr ''Potential open redirect detected''),
                (''context'', JStr ''R=1&URL=x''),
                (''url'', JStr ''u''),
                (''position'', JInt 5)]] :: py_error + json list)"
    by code_simp
  have 8: "analyze_content (JStr ''u'') (JStr '' R=1&URL=x '') =
     Inr [JObj [(''id'', JStr ''deep_open_redirect''),
                (''severity'', JStr ''medium''),
                (''details'', JStr ''Potential open redirect detected''),
                (''context'', JStr ''R=1&URL=x''),
                (''url'', JStr ''u''),
                (''position'', JInt 1)],
          JObj [(''id'', JStr ''deep_open_redirect''),
                (''severity'', JStr ''medium''),
                (''details'', JStr ''Potential open redirect detected''),
                (''context'', JStr ''R=1&URL=x''),
                (''url'', JStr ''u''),
                (''position'', JInt 5)]]"
    unfolding two [THEN conjunct2, THEN conjunct2, THEN conjunct2, THEN conjunct2, THEN conjunct1]
    by (rule two_eval)
  note uni = content_detector_all_matches
    [of unicode_excerpt "()" sample_unicode "JStr ''u''" "[]"]
  have uni_eval: "concat (map (\<lambda>(kind, rx).
        map (content_issue unicode_excerpt kind () sample_unicode)
          (finditer unicode_excerpt rx sample_unicode)) patterns) =
     [\<lparr>finding_id = ''deep_sensitive_data'',
       finding_severity = ''high'',
       finding_details = ''Potential sensitive data detected'',
       finding_context = [0x50, 0x41, 0x17F, 0x17F, 0x57, 0x4F, 0x52, 0x44],
       finding_url = (),
       finding_position = 1\<rparr>]"
    by code_simp
  have 9: "analyze_text unicode_excerpt () sample_unicode =
     [\<lparr>finding_id = ''deep_sensitive_data'',
       finding_severity = ''high'',
       finding_details = ''Potential sensitive data detected'',
       finding_context = [0x50, 0x41, 0x17F, 0x17F, 0x57, 0x4F, 0x52, 0x44],
       finding_url = (),
       finding_position = 1\<rparr>]"
    unfolding uni [THEN conjunct1] by (rule uni_eval)
  show ?thesis
    by (intro conjI 1 2 3 4 5 6 7 8 9)
qed

end
